theory Spec2Isabelle
  imports Main "HOL-Library.List_Lexorder"
begin

section \<open>Python values\<close>

text \<open>
  A Python \<open>str\<close> is a sequence of Unicode code points: \<open>len\<close> counts code points and
  \<open><\<close> compares them lexicographically. It is modelled as a list of code points, so
  \<open>length\<close> is \<open>len\<close> and the list order of \<open>List_Lexorder\<close> is Python's. Dictionary keys
  of the source are ASCII literals and are written as HOL strings.
\<close>

type_synonym ustring = "nat list"

text \<open>
  The fields of a speech record as \<open>json.loads\<close> delivers them: a JSON string or
  \<open>null\<close> (Python \<open>None\<close>). A record is a \<open>dict\<close>; a key may be absent.
\<close>

datatype jval = JNull | JStr ustring

type_synonym speech_rec = "string \<Rightarrow> jval option"

datatype error =
  HTTPError | TypeError | ValueError | OverflowError | RuntimeError
  | FileNotFoundError | FileExistsError | NotADirectoryError | OSError | ValidationError

text \<open>\<open>rec.get(k)\<close>: \<open>None\<close> when the key is absent.\<close>

definition py_get :: "speech_rec \<Rightarrow> string \<Rightarrow> jval" where
  "py_get rec k = (case rec k of None \<Rightarrow> JNull | Some v \<Rightarrow> v)"

text \<open>Truthiness of a field: \<open>None\<close> and the empty string are false.\<close>

fun truthy :: "jval \<Rightarrow> bool" where
  "truthy JNull = False"
| "truthy (JStr s) = (s \<noteq> [])"

section \<open>Vector store builder (update\_vectorstore.py)\<close>

definition MAX_LEN_NO_SPLIT :: nat where "MAX_LEN_NO_SPLIT = 1200"
definition CHUNK_SIZE :: nat where "CHUNK_SIZE = 1200"
definition CHUNK_OVERLAP :: nat where "CHUNK_OVERLAP = 200"

text \<open>
  The configuration of the \<open>RecursiveCharacterTextSplitter\<close>. The separators are
  \<open>"\n\n"\<close>, \<open>"\n"\<close>, the ideographic full stop U+3002, the ideographic comma U+3001 and
  the space. The splitting algorithm itself belongs to the library; the functions below
  take it as the parameter \<open>split_text\<close>, applied to this configuration.
\<close>

record text_splitter =
  chunk_size :: nat
  chunk_overlap :: nat
  separators :: "ustring list"

definition splitter :: text_splitter where
  "splitter = \<lparr>chunk_size = CHUNK_SIZE, chunk_overlap = CHUNK_OVERLAP,
     separators = [[10, 10], [10], [12290], [12289], [32]]\<rparr>"

text \<open>
  \<open>f"{rec.get(k, '')}"\<close>: the empty string for an absent key, \<open>str(None) = "None"\<close> for a
  \<open>null\<close>, the string itself otherwise.
\<close>

definition fmt_get :: "speech_rec \<Rightarrow> string \<Rightarrow> ustring" where
  "fmt_get rec k =
     (case rec k of None \<Rightarrow> [] | Some JNull \<Rightarrow> [78, 111, 110, 101] | Some (JStr s) \<Rightarrow> s)"

text \<open>
  The four labels of the header, as code points: U+3010 and U+3011 are the lenticular
  brackets around the words for date, house, meeting and speaker.
\<close>

definition LABEL_DATE :: ustring where "LABEL_DATE = [12304, 26085, 20184, 12305]"
definition LABEL_HOUSE :: ustring where "LABEL_HOUSE = [12304, 38498, 12305]"
definition LABEL_MEETING :: ustring where "LABEL_MEETING = [12304, 20250, 35696, 12305]"
definition LABEL_SPEAKER :: ustring where
  "LABEL_SPEAKER = [12304, 30330, 35328, 32773, 12305]"

text \<open>
  \<open>build_base_text\<close>: \<open>header + rec.get("speech", "")\<close>. Adding \<open>None\<close> to a \<open>str\<close> raises
  \<open>TypeError\<close>.
\<close>

definition build_base_text :: "speech_rec \<Rightarrow> error + ustring" where
  "build_base_text rec =
     (let header =
        LABEL_DATE @ fmt_get rec ''date'' @ [10]
        @ LABEL_HOUSE @ fmt_get rec ''nameOfHouse'' @ [10]
        @ LABEL_MEETING @ fmt_get rec ''nameOfMeeting'' @ [10]
        @ LABEL_SPEAKER @ fmt_get rec ''speaker'' @ [10, 10]
      in case rec ''speech'' of
           None \<Rightarrow> Inr (header @ [])
         | Some JNull \<Rightarrow> Inl TypeError
         | Some (JStr s) \<Rightarrow> Inr (header @ s))"

text \<open>Metadata values: a field of the record, or an integer the builder adds.\<close>

datatype mval = MNone | MStr ustring | MInt int

type_synonym metadata = "string \<Rightarrow> mval option"

fun of_jval :: "jval \<Rightarrow> mval" where
  "of_jval JNull = MNone"
| "of_jval (JStr s) = MStr s"

definition build_metadata :: "speech_rec \<Rightarrow> int \<Rightarrow> metadata" where
  "build_metadata rec rec_idx =
     [''speechID'' \<mapsto> of_jval (py_get rec ''speechID''),
      ''issueID'' \<mapsto> of_jval (py_get rec ''issueID''),
      ''date'' \<mapsto> of_jval (py_get rec ''date''),
      ''nameOfHouse'' \<mapsto> of_jval (py_get rec ''nameOfHouse''),
      ''nameOfMeeting'' \<mapsto> of_jval (py_get rec ''nameOfMeeting''),
      ''speaker'' \<mapsto> of_jval (py_get rec ''speaker''),
      ''speakerGroup'' \<mapsto> of_jval (py_get rec ''speakerGroup''),
      ''speechURL'' \<mapsto> of_jval (py_get rec ''speechURL''),
      ''meetingURL'' \<mapsto> of_jval (py_get rec ''meetingURL''),
      ''record_index'' \<mapsto> MInt rec_idx]"

record document =
  page_content :: ustring
  metadata :: metadata

text \<open>
  One turn of the loop of \<open>build_documents\<close>: the documents yielded for the record with
  number \<open>rec_idx\<close>, or the exception \<open>build_base_text\<close> raises.
\<close>

definition record_documents ::
  "(text_splitter \<Rightarrow> ustring \<Rightarrow> ustring list) \<Rightarrow> int \<Rightarrow> speech_rec \<Rightarrow> error + document list"
where
  "record_documents split_text rec_idx rec =
     (case build_base_text rec of
        Inl e \<Rightarrow> Inl e
      | Inr base_text \<Rightarrow>
          (let meta_base = build_metadata rec rec_idx in
           if length base_text \<le> MAX_LEN_NO_SPLIT then
             Inr [\<lparr>page_content = base_text,
                   metadata = meta_base(''chunk_index'' \<mapsto> MInt 0, ''chunk_count'' \<mapsto> MInt 1)\<rparr>]
           else
             (let chunks = split_text splitter base_text;
                  total_chunks = length chunks
              in Inr (map (\<lambda>(chunk_idx, chunk).
                        \<lparr>page_content = chunk,
                         metadata = meta_base(''chunk_index'' \<mapsto> MInt (int chunk_idx),
                                              ''chunk_count'' \<mapsto> MInt (int total_chunks))\<rparr>)
                      (enumerate 0 chunks)))))"

text \<open>
  \<open>build_documents\<close> is a generator over \<open>enumerate(iter_speech_records(path), start=1)\<close>.
  The record file is the list of its records. The model returns the documents yielded, in
  order, and the exception that ended the iteration, if one did: the documents yielded
  before it have reached the consumer.
\<close>

fun build_documents_from ::
  "(text_splitter \<Rightarrow> ustring \<Rightarrow> ustring list) \<Rightarrow> int \<Rightarrow> speech_rec list
     \<Rightarrow> document list \<times> error option"
where
  "build_documents_from split_text rec_idx [] = ([], None)"
| "build_documents_from split_text rec_idx (rec # recs) =
     (case record_documents split_text rec_idx rec of
        Inl e \<Rightarrow> ([], Some e)
      | Inr ds \<Rightarrow>
          (case build_documents_from split_text (rec_idx + 1) recs of
             (rest, err) \<Rightarrow> (ds @ rest, err)))"

definition build_documents ::
  "(text_splitter \<Rightarrow> ustring \<Rightarrow> ustring list) \<Rightarrow> speech_rec list \<Rightarrow> document list \<times> error option"
where
  "build_documents split_text recs = build_documents_from split_text 1 recs"

text \<open>
  A record has a formatted text when \<open>build_base_text\<close> does not raise for it. The
  documents of a stream that belong to the record with a given number are those whose
  \<open>record_index\<close> is that number.
\<close>

definition has_base_text :: "speech_rec \<Rightarrow> bool" where
  "has_base_text rec \<longleftrightarrow> (\<exists>base_text. build_base_text rec = Inr base_text)"

definition documents_of_record :: "int \<Rightarrow> document list \<Rightarrow> document list" where
  "documents_of_record rec_idx docs =
     filter (\<lambda>d. metadata d ''record_index'' = Some (MInt rec_idx)) docs"

section \<open>Query engine (rag\_engine.py, utils.py)\<close>

definition DEFAULT_TOP_K :: int where "DEFAULT_TOP_K = 3"

text \<open>\<open>DEFAULT_SPEAKER\<close>: the four code points U+9AD8 U+5E02 U+65E9 U+82D7 of the name.\<close>

definition DEFAULT_SPEAKER :: ustring where
  "DEFAULT_SPEAKER = [39640, 24066, 26089, 33495]"

text \<open>\<open>sep.join(xs)\<close>.\<close>

fun join :: "ustring \<Rightarrow> ustring list \<Rightarrow> ustring" where
  "join sep [] = []"
| "join sep [x] = x"
| "join sep (x # y # ys) = x @ sep @ join sep (y # ys)"

definition format_docs :: "document list \<Rightarrow> ustring" where
  "format_docs docs = join [10, 10] (map page_content docs)"

text \<open>
  Modelled from the spec: the vector store's retrieval (\<open>langchain_chroma\<close>, a library
  outside the repository), which "retrieves the top-N Documents matching the question
  whose metadata speaker field equals" the filter's value. The filter is a dictionary of
  required metadata values; the documents that meet it are ranked by their distance
  \<open>dist\<close> to the question (the embedding model's, a parameter) and the first \<open>k\<close>
  returned. The store refuses a result count below one.
\<close>

definition meets_filter :: "(string \<times> mval) list \<Rightarrow> document \<Rightarrow> bool" where
  "meets_filter flt d = list_all (\<lambda>(k, v). metadata d k = Some v) flt"

definition similarity_search ::
  "(ustring \<Rightarrow> document \<Rightarrow> 'o::linorder) \<Rightarrow> document list \<Rightarrow> ustring \<Rightarrow> int
     \<Rightarrow> (string \<times> mval) list \<Rightarrow> error + document list"
where
  "similarity_search dist db query k flt =
     (if k < 1 then Inl ValueError
      else Inr (take (nat k) (sort_key (dist query) (filter (meets_filter flt) db))))"

text \<open>
  The state of the module: the opened vector store and the session histories
  (\<open>_history_store\<close>). \<open>None\<close> stands for an engine that was not initialised. The language
  model is the parameter \<open>llm\<close>: from the context text, the session's earlier turns and the
  question to the answer, or to the error the provider raises.
\<close>

datatype message = Human ustring | AI ustring

record engine =
  vectordb :: "document list"
  history_store :: "ustring \<Rightarrow> message list option"

record context_doc =
  content :: ustring
  source :: mval

record answer_result =
  answer :: ustring
  context_docs :: "context_doc list"

text \<open>\<open>d.metadata.get(k)\<close>.\<close>

definition meta_get :: "metadata \<Rightarrow> string \<Rightarrow> mval" where
  "meta_get m k = (case m k of None \<Rightarrow> MNone | Some v \<Rightarrow> v)"

text \<open>
  \<open>answer_question\<close>. The chain with memory creates the session's history on first use,
  passes the earlier turns to the model and, when the model has answered, appends the
  question and the answer to the history.
\<close>

definition answer_question ::
  "(ustring \<Rightarrow> message list \<Rightarrow> ustring \<Rightarrow> error + ustring)
     \<Rightarrow> (ustring \<Rightarrow> document \<Rightarrow> 'o::linorder)
     \<Rightarrow> engine option \<Rightarrow> ustring \<Rightarrow> int \<Rightarrow> ustring
     \<Rightarrow> (error + answer_result) \<times> engine option"
where
  "answer_question llm dist eng question top_k session_id =
     (case eng of
        None \<Rightarrow> (Inl RuntimeError, None)
      | Some e \<Rightarrow>
          (let speaker_filter = [(''speaker'', MStr DEFAULT_SPEAKER)] in
           case similarity_search dist (vectordb e) question top_k speaker_filter of
             Inl err \<Rightarrow> (Inl err, Some e)
           | Inr docs \<Rightarrow>
               (let context_text = format_docs docs;
                    history = (case history_store e session_id of None \<Rightarrow> [] | Some h \<Rightarrow> h)
                in case llm context_text history question of
                     Inl err \<Rightarrow>
                       (Inl err,
                        Some (e\<lparr>history_store := (history_store e)(session_id \<mapsto> history)\<rparr>))
                   | Inr response \<Rightarrow>
                       (Inr \<lparr>answer = response,
                             context_docs =
                               map (\<lambda>d. \<lparr>content = page_content d,
                                          source = meta_get (metadata d) ''source''\<rparr>) docs\<rparr>,
                        Some (e\<lparr>history_store := (history_store e)
                                 (session_id \<mapsto> history @ [Human question, AI response])\<rparr>)))))"

section \<open>HTTP API (app.py)\<close>

definition app_DEFAULT_TOP_K :: int where "app_DEFAULT_TOP_K = 10"

text \<open>
  The JSON body of \<open>POST /ask\<close>: each field may be left out. \<open>AskRequest\<close> requires the
  question, gives \<open>top_k\<close> the default 10 and the bounds \<open>ge=1, le=50\<close>, and gives
  \<open>session_id\<close> the default \<open>"default"\<close>; a default is not validated.
\<close>

record ask_body =
  body_question :: "ustring option"
  body_top_k :: "int option"
  body_session_id :: "ustring option"

record ask_request =
  question :: ustring
  top_k :: int
  session_id :: ustring

definition AskRequest :: "ask_body \<Rightarrow> error + ask_request" where
  "AskRequest body =
     (case body_question body of
        None \<Rightarrow> Inl ValidationError
      | Some q \<Rightarrow>
          (case body_top_k body of
             None \<Rightarrow>
               Inr \<lparr>question = q, top_k = app_DEFAULT_TOP_K,
                    session_id = (case body_session_id body of
                                    None \<Rightarrow> [100, 101, 102, 97, 117, 108, 116] | Some s \<Rightarrow> s)\<rparr>
           | Some k \<Rightarrow>
               if 1 \<le> k \<and> k \<le> 50 then
                 Inr \<lparr>question = q, top_k = k,
                      session_id = (case body_session_id body of
                                      None \<Rightarrow> [100, 101, 102, 97, 117, 108, 116] | Some s \<Rightarrow> s)\<rparr>
               else Inl ValidationError))"

text \<open>\<open>ContextDoc\<close>: \<open>source\<close> is declared \<open>str | None\<close>, so an integer is refused.\<close>

record ContextDoc =
  cd_content :: ustring
  cd_source :: "ustring option"

record AskResponse =
  resp_answer :: ustring
  resp_context_docs :: "ContextDoc list"

fun to_ContextDocs :: "context_doc list \<Rightarrow> error + ContextDoc list" where
  "to_ContextDocs [] = Inr []"
| "to_ContextDocs (doc # docs) =
     (case source doc of
        MInt n \<Rightarrow> Inl ValidationError
      | MNone \<Rightarrow>
          (case to_ContextDocs docs of
             Inl e \<Rightarrow> Inl e
           | Inr cds \<Rightarrow> Inr (\<lparr>cd_content = content doc, cd_source = None\<rparr> # cds))
      | MStr s \<Rightarrow>
          (case to_ContextDocs docs of
             Inl e \<Rightarrow> Inl e
           | Inr cds \<Rightarrow> Inr (\<lparr>cd_content = content doc, cd_source = Some s\<rparr> # cds)))"

text \<open>The endpoint function \<open>ask\<close>, called with a validated request.\<close>

definition ask ::
  "(ustring \<Rightarrow> message list \<Rightarrow> ustring \<Rightarrow> error + ustring)
     \<Rightarrow> (ustring \<Rightarrow> document \<Rightarrow> 'o::linorder)
     \<Rightarrow> engine option \<Rightarrow> ask_request \<Rightarrow> (error + AskResponse) \<times> engine option"
where
  "ask llm dist eng req =
     (case answer_question llm dist eng (question req) (top_k req) (session_id req) of
        (Inl e, eng') \<Rightarrow> (Inl e, eng')
      | (Inr result, eng') \<Rightarrow>
          (case to_ContextDocs (context_docs result) of
             Inl e \<Rightarrow> (Inl e, eng')
           | Inr cds \<Rightarrow> (Inr \<lparr>resp_answer = answer result, resp_context_docs = cds\<rparr>, eng')))"

text \<open>
  \<open>POST /ask\<close>: the framework builds the \<open>AskRequest\<close> from the body and calls \<open>ask\<close> only
  when the validation has passed.
\<close>

definition post_ask ::
  "(ustring \<Rightarrow> message list \<Rightarrow> ustring \<Rightarrow> error + ustring)
     \<Rightarrow> (ustring \<Rightarrow> document \<Rightarrow> 'o::linorder)
     \<Rightarrow> engine option \<Rightarrow> ask_body \<Rightarrow> (error + AskResponse) \<times> engine option"
where
  "post_ask llm dist eng body =
     (case AskRequest body of
        Inl e \<Rightarrow> (Inl e, eng)
      | Inr req \<Rightarrow> ask llm dist eng req)"

section \<open>Promotion of the working index (swap\_active\_db)\<close>

text \<open>
  The file system as \<open>swap_active_db\<close> sees it. At a path there is nothing, a regular
  file, or a directory; a directory has an identity (its inode number), which a change of
  its contents keeps and which a directory made anew does not share, and a listing of its
  children by name. What a child is (a file or a whole subtree) is left open: the function
  removes or moves children as wholes, and only asks \<open>is_dir\<close> of them.
  The two paths are names at one level, as \<open>ACTIVE_DB_DIR\<close> and \<open>TEMP_DB_DIR\<close> are under
  the project root: neither lies inside the other.
\<close>

datatype 'n entry = File | Dir nat "(string \<times> 'n) list"

record 'n filesystem =
  paths :: "string \<Rightarrow> 'n entry option"
  next_inode :: nat

text \<open>\<open>shutil.rmtree(item)\<close> and \<open>item.unlink()\<close>: the child is gone from its directory.\<close>

definition rmtree :: "string \<Rightarrow> (string \<times> 'n) list \<Rightarrow> (string \<times> 'n) list" where
  "rmtree name children = filter (\<lambda>(k, n). k \<noteq> name) children"

definition unlink :: "string \<Rightarrow> (string \<times> 'n) list \<Rightarrow> (string \<times> 'n) list" where
  "unlink name children = filter (\<lambda>(k, n). k \<noteq> name) children"

text \<open>The first loop: over the listing read at its start, each child is removed.\<close>

fun clear_items ::
  "('n \<Rightarrow> bool) \<Rightarrow> (string \<times> 'n) list \<Rightarrow> (string \<times> 'n) list \<Rightarrow> (string \<times> 'n) list"
where
  "clear_items is_dir [] children = children"
| "clear_items is_dir ((name, n) # items) children =
     clear_items is_dir items
       (if is_dir n then rmtree name children else unlink name children)"

text \<open>
  The second loop: \<open>shutil.move(item, active_dir / item.name)\<close> for each child of the
  temporary directory, over the listing read at the start of the loop. The source must
  still be there. A destination that is free takes the child by a rename. The active
  directory was emptied before the loop and a directory lists a name once, so a
  destination that exists does not arise for a real directory; the model reports it as
  an error.
\<close>

fun move_items ::
  "(string \<times> 'n) list \<Rightarrow> (string \<times> 'n) list \<Rightarrow> (string \<times> 'n) list
     \<Rightarrow> error + (string \<times> 'n) list \<times> (string \<times> 'n) list"
where
  "move_items [] temp_children active_children = Inr (temp_children, active_children)"
| "move_items ((name, n) # items) temp_children active_children =
     (case map_of temp_children name of
        None \<Rightarrow> Inl FileNotFoundError
      | Some child \<Rightarrow>
          (case map_of active_children name of
             Some other \<Rightarrow> Inl FileExistsError
           | None \<Rightarrow>
               move_items items (filter (\<lambda>(k, n). k \<noteq> name) temp_children)
                 (active_children @ [(name, child)])))"

text \<open>
  \<open>swap_active_db(temp_dir, active_dir)\<close>, step by step on the state: clear the active
  directory or make it, move the children over, remove the temporary directory with
  \<open>rmdir\<close>, which refuses a directory that is not empty. An exception leaves the state as
  the steps before it made it.
\<close>

definition clear_or_make ::
  "('n \<Rightarrow> bool) \<Rightarrow> string \<Rightarrow> 'n filesystem \<Rightarrow> error + 'n filesystem"
where
  "clear_or_make is_dir active_dir fs =
     (case paths fs active_dir of
        Some File \<Rightarrow> Inl NotADirectoryError
      | Some (Dir i children) \<Rightarrow>
          Inr (fs\<lparr>paths := (paths fs)(active_dir \<mapsto> Dir i (clear_items is_dir children children))\<rparr>)
      | None \<Rightarrow>
          Inr (fs\<lparr>paths := (paths fs)(active_dir \<mapsto> Dir (next_inode fs) []),
                  next_inode := next_inode fs + 1\<rparr>))"

definition move_contents ::
  "string \<Rightarrow> string \<Rightarrow> 'n filesystem \<Rightarrow> error + 'n filesystem"
where
  "move_contents temp_dir active_dir fs =
     (case paths fs temp_dir of
        None \<Rightarrow> Inl FileNotFoundError
      | Some File \<Rightarrow> Inl NotADirectoryError
      | Some (Dir ti temp_children) \<Rightarrow>
          (case paths fs active_dir of
             None \<Rightarrow> Inl FileNotFoundError
           | Some File \<Rightarrow> Inl NotADirectoryError
           | Some (Dir ai active_children) \<Rightarrow>
               (case move_items temp_children temp_children active_children of
                  Inl e \<Rightarrow> Inl e
                | Inr (temp_children', active_children') \<Rightarrow>
                    Inr (fs\<lparr>paths := (paths fs)
                            (temp_dir \<mapsto> Dir ti temp_children',
                             active_dir \<mapsto> Dir ai active_children')\<rparr>))))"

definition rmdir :: "string \<Rightarrow> 'n filesystem \<Rightarrow> error + 'n filesystem" where
  "rmdir p fs =
     (case paths fs p of
        None \<Rightarrow> Inl FileNotFoundError
      | Some File \<Rightarrow> Inl NotADirectoryError
      | Some (Dir i children) \<Rightarrow>
          (if children = [] then Inr (fs\<lparr>paths := (paths fs)(p := None)\<rparr>) else Inl OSError))"

definition swap_active_db ::
  "('n \<Rightarrow> bool) \<Rightarrow> string \<Rightarrow> string \<Rightarrow> 'n filesystem \<Rightarrow> error + 'n filesystem"
where
  "swap_active_db is_dir temp_dir active_dir fs =
     (case clear_or_make is_dir active_dir fs of
        Inl e \<Rightarrow> Inl e
      | Inr fs1 \<Rightarrow>
          (case move_contents temp_dir active_dir fs1 of
             Inl e \<Rightarrow> Inl e
           | Inr fs2 \<Rightarrow> rmdir temp_dir fs2))"

section \<open>Speech fetcher (get\_diet\_speeches.py)\<close>

subsection \<open>Dates\<close>

text \<open>
  A \<open>datetime.date\<close> is a year, a month and a day. \<open>d - timedelta(days=n)\<close> is the day
  \<open>n\<close> days before \<open>d\<close> in the proleptic Gregorian calendar; it raises \<open>OverflowError\<close>
  below the first day of year 1. \<open>date.today()\<close> and \<open>date.fromisoformat\<close> (which raises
  \<open>ValueError\<close> on a string that is no date) belong to the library and are parameters.
\<close>

type_synonym date = "int \<times> int \<times> int"

definition INIT_FROM_DATE :: date where "INIT_FROM_DATE = (2023, 1, 1)"
definition MAX_RECORDS_PER_REQUEST :: int where "MAX_RECORDS_PER_REQUEST = 100"

definition is_leap :: "int \<Rightarrow> bool" where
  "is_leap y = (y mod 4 = 0 \<and> (y mod 100 \<noteq> 0 \<or> y mod 400 = 0))"

definition days_in_month :: "int \<Rightarrow> int \<Rightarrow> int" where
  "days_in_month y m =
     (if m = 2 then (if is_leap y then 29 else 28)
      else if m = 4 \<or> m = 6 \<or> m = 9 \<or> m = 11 then 30 else 31)"

fun day_before :: "date \<Rightarrow> error + date" where
  "day_before (y, m, d) =
     (if 1 < d then Inr (y, m, d - 1)
      else if 1 < m then Inr (y, m - 1, days_in_month y (m - 1))
      else if 1 < y then Inr (y - 1, 12, 31)
      else Inl OverflowError)"

fun minus_days :: "date \<Rightarrow> nat \<Rightarrow> error + date" where
  "minus_days d 0 = Inr d"
| "minus_days d (Suc n) =
     (case day_before d of Inl e \<Rightarrow> Inl e | Inr d' \<Rightarrow> minus_days d' n)"

subsection \<open>The upstream API and the files\<close>

text \<open>
  What the API answers during one run. \<open>get_record_count\<close> is the count query for a date
  range: the total, or the error \<open>raise_for_status\<close> raises. \<open>get_page\<close> is the page query
  with a \<open>startRecord\<close>: its \<open>speechRecord\<close> field is absent, one record, or a list.
\<close>

datatype speech_records = Absent | One speech_rec | Many "speech_rec list"

record api =
  get_record_count :: "date \<Rightarrow> date \<Rightarrow> error + int"
  get_page :: "date \<Rightarrow> date \<Rightarrow> int \<Rightarrow> error + speech_records"

text \<open>\<open>data.get("speechRecord", [])\<close>, a single \<open>dict\<close> wrapped into a list.\<close>

fun speech_records_list :: "speech_records \<Rightarrow> speech_rec list" where
  "speech_records_list Absent = []"
| "speech_records_list (One rec) = [rec]"
| "speech_records_list (Many recs) = recs"

text \<open>
  The three files; \<open>None\<close> is a file that does not exist. \<open>OUT_PATH\<close> holds one record on
  each line (\<open>json.dumps\<close> writes no line break inside a record), so it is the list of its
  records and it is empty (\<open>st_size == 0\<close>) exactly when the list is. \<open>STATE_PATH\<close> holds
  the value of \<open>last_fetched_date\<close>. \<open>IDS_PATH\<close> is a text file, kept as its characters.
\<close>

record files =
  out_path :: "speech_rec list option"
  state_path :: "jval option"
  ids_path :: "ustring option"

definition load_state :: "files \<Rightarrow> jval" where
  "load_state fs = (case state_path fs of None \<Rightarrow> JNull | Some v \<Rightarrow> v)"

definition save_state :: "ustring \<Rightarrow> files \<Rightarrow> files" where
  "save_state last_date fs = fs\<lparr>state_path := Some (JStr last_date)\<rparr>"

text \<open>
  Reading a text file line by line: \<open>"\r\n"\<close> and \<open>"\r"\<close> are read as \<open>"\n"\<close>, and a line
  runs to its \<open>"\n"\<close>, which it keeps; the last line may have none.
\<close>

definition after_cr :: "ustring \<Rightarrow> ustring" where
  "after_cr cs = (case cs of [] \<Rightarrow> [] | d # ds \<Rightarrow> if d = 10 then ds else cs)"

function read_lines :: "ustring \<Rightarrow> ustring \<Rightarrow> ustring list" where
  "read_lines cur [] = (if cur = [] then [] else [cur])"
| "read_lines cur (c # cs) =
     (if c = 10 then (cur @ [10]) # read_lines [] cs
      else if c = 13 then (cur @ [10]) # read_lines [] (after_cr cs)
      else read_lines (cur @ [c]) cs)"
  by pat_completeness auto
termination
  by (relation "measure (\<lambda>(cur, cs). length cs)")
    (auto simp: after_cr_def split: list.splits)

text \<open>\<open>str.isspace\<close> and \<open>str.strip()\<close>.\<close>

definition is_space :: "nat \<Rightarrow> bool" where
  "is_space c =
     ((9 \<le> c \<and> c \<le> 13) \<or> (28 \<le> c \<and> c \<le> 32) \<or> c = 133 \<or> c = 160 \<or> c = 5760
      \<or> (8192 \<le> c \<and> c \<le> 8202) \<or> c = 8232 \<or> c = 8233 \<or> c = 8239 \<or> c = 8287
      \<or> c = 12288)"

definition strip :: "ustring \<Rightarrow> ustring" where
  "strip s = rev (dropWhile is_space (rev (dropWhile is_space s)))"

definition load_fetched_ids :: "files \<Rightarrow> ustring set" where
  "load_fetched_ids fs =
     (case ids_path fs of
        None \<Rightarrow> {}
      | Some text \<Rightarrow> set (filter (\<lambda>l. l \<noteq> []) (map strip (read_lines [] text))))"

text \<open>
  \<open>save_fetched_ids\<close> and \<open>append_fetched_ids\<close> write each identifier of a set and a line
  break. The sets \<open>all_ids\<close> and \<open>new_ids\<close> are kept as lists without repetition, in the
  order of insertion; Python writes a set in an order of its own.
\<close>

definition id_lines :: "ustring list \<Rightarrow> ustring" where
  "id_lines ids = concat (map (\<lambda>id. id @ [10]) ids)"

definition save_fetched_ids :: "ustring list \<Rightarrow> files \<Rightarrow> files" where
  "save_fetched_ids ids fs = fs\<lparr>ids_path := Some (id_lines ids)\<rparr>"

definition append_fetched_ids :: "ustring list \<Rightarrow> files \<Rightarrow> files" where
  "append_fetched_ids new_ids fs =
     fs\<lparr>ids_path := Some ((case ids_path fs of None \<Rightarrow> [] | Some text \<Rightarrow> text) @ id_lines new_ids)\<rparr>"

definition set_add :: "'a \<Rightarrow> 'a list \<Rightarrow> 'a list" where
  "set_add x xs = (if x \<in> set xs then xs else xs @ [x])"

subsection \<open>The fetch loops\<close>

text \<open>
  \<open>if rec_date and (latest_date is None or rec_date > latest_date): latest_date = rec_date\<close>
\<close>

fun later_date :: "jval \<Rightarrow> ustring option \<Rightarrow> ustring option" where
  "later_date JNull latest_date = latest_date"
| "later_date (JStr rec_date) latest_date =
     (if rec_date \<noteq> [] \<and> (case latest_date of None \<Rightarrow> True | Some l \<Rightarrow> l < rec_date)
      then Some rec_date else latest_date)"

text \<open>\<open>math.ceil(total / MAX_RECORDS_PER_REQUEST)\<close>, and \<open>range(pages)\<close>.\<close>

definition page_count :: "int \<Rightarrow> int" where
  "page_count total_records = - ((- total_records) div MAX_RECORDS_PER_REQUEST)"

definition page_range :: "int \<Rightarrow> nat list" where
  "page_range total_records = [0 ..< nat (page_count total_records)]"

text \<open>
  The state of the loops of the full fetch: the lines written to \<open>OUT_PATH\<close>, \<open>all_ids\<close>
  and \<open>latest_date\<close>.
\<close>

record initial_state =
  i_written :: "speech_rec list"
  all_ids :: "ustring list"
  i_latest_date :: "ustring option"

definition initial_record :: "speech_rec \<Rightarrow> initial_state \<Rightarrow> initial_state" where
  "initial_record rec st =
     \<lparr>i_written = i_written st @ [rec],
      all_ids = (case py_get rec ''speechID'' of
                   JNull \<Rightarrow> all_ids st
                 | JStr speech_id \<Rightarrow>
                     if speech_id \<noteq> [] then set_add speech_id (all_ids st) else all_ids st),
      i_latest_date = later_date (py_get rec ''date'') (i_latest_date st)\<rparr>"

fun initial_records :: "speech_rec list \<Rightarrow> initial_state \<Rightarrow> initial_state" where
  "initial_records [] st = st"
| "initial_records (rec # recs) st = initial_records recs (initial_record rec st)"

fun initial_pages ::
  "(int \<Rightarrow> error + speech_records) \<Rightarrow> int \<Rightarrow> nat list \<Rightarrow> initial_state
     \<Rightarrow> error option \<times> initial_state"
where
  "initial_pages page total_records [] st = (None, st)"
| "initial_pages page total_records (i # is) st =
     (let start_record = 1 + int i * MAX_RECORDS_PER_REQUEST in
      if total_records < start_record then (None, st)
      else
        (case page start_record of
           Inl e \<Rightarrow> (Some e, st)
         | Inr data \<Rightarrow>
             initial_pages page total_records is (initial_records (speech_records_list data) st)))"

text \<open>
  \<open>fetch_initial\<close>. \<open>OUT_PATH\<close> is opened for writing after the count query: it is cut to
  nothing and holds what was written when an exception ends the run. The identifiers are
  saved after the loop only.
\<close>

definition fetch_initial ::
  "api \<Rightarrow> date \<Rightarrow> date \<Rightarrow> files \<Rightarrow> (error + ustring option) \<times> files"
where
  "fetch_initial a from_date to_date fs =
     (case get_record_count a from_date to_date of
        Inl e \<Rightarrow> (Inl e, fs)
      | Inr total_records \<Rightarrow>
          if total_records = 0 then (Inr None, fs)
          else
            (case initial_pages (get_page a from_date to_date) total_records (page_range total_records)
                    \<lparr>i_written = [], all_ids = [], i_latest_date = None\<rparr> of
               (Some e, st) \<Rightarrow> (Inl e, fs\<lparr>out_path := Some (i_written st)\<rparr>)
             | (None, st) \<Rightarrow>
                 (Inr (i_latest_date st),
                  save_fetched_ids (all_ids st) (fs\<lparr>out_path := Some (i_written st)\<rparr>))))"

text \<open>
  The state of the loops of the incremental fetch: \<open>existing_ids\<close>, the lines appended to
  \<open>OUT_PATH\<close>, \<open>new_ids\<close> and \<open>latest_date\<close>.
\<close>

record incremental_state =
  existing_ids :: "ustring set"
  written :: "speech_rec list"
  new_ids :: "ustring list"
  latest_date :: "ustring option"

definition is_duplicate :: "ustring set \<Rightarrow> jval \<Rightarrow> bool" where
  "is_duplicate existing speech_id =
     (case speech_id of JNull \<Rightarrow> False | JStr s \<Rightarrow> s \<noteq> [] \<and> s \<in> existing)"

definition incremental_record :: "speech_rec \<Rightarrow> incremental_state \<Rightarrow> incremental_state" where
  "incremental_record rec st =
     (let speech_id = py_get rec ''speechID'' in
      if is_duplicate (existing_ids st) speech_id then st
      else
        \<lparr>existing_ids = (case speech_id of
                           JNull \<Rightarrow> existing_ids st
                         | JStr s \<Rightarrow> if s \<noteq> [] then insert s (existing_ids st)
                                     else existing_ids st),
         written = written st @ [rec],
         new_ids = (case speech_id of
                      JNull \<Rightarrow> new_ids st
                    | JStr s \<Rightarrow> if s \<noteq> [] then set_add s (new_ids st) else new_ids st),
         latest_date = later_date (py_get rec ''date'') (latest_date st)\<rparr>)"

fun incremental_records :: "speech_rec list \<Rightarrow> incremental_state \<Rightarrow> incremental_state" where
  "incremental_records [] st = st"
| "incremental_records (rec # recs) st = incremental_records recs (incremental_record rec st)"

fun incremental_pages ::
  "(int \<Rightarrow> error + speech_records) \<Rightarrow> int \<Rightarrow> nat list \<Rightarrow> incremental_state
     \<Rightarrow> error option \<times> incremental_state"
where
  "incremental_pages page total_records [] st = (None, st)"
| "incremental_pages page total_records (i # is) st =
     (let start_record = 1 + int i * MAX_RECORDS_PER_REQUEST in
      if total_records < start_record then (None, st)
      else
        (case page start_record of
           Inl e \<Rightarrow> (Some e, st)
         | Inr data \<Rightarrow>
             incremental_pages page total_records is
               (incremental_records (speech_records_list data) st)))"

text \<open>
  \<open>fetch_incremental\<close>. \<open>OUT_PATH\<close> is opened for appending, which makes the file when it
  is not there; the new identifiers are appended to \<open>IDS_PATH\<close> after the loop only, and
  only when there are some.
\<close>

definition fetch_incremental ::
  "api \<Rightarrow> date \<Rightarrow> date \<Rightarrow> files \<Rightarrow> (error + ustring option) \<times> files"
where
  "fetch_incremental a from_date to_date fs =
     (let existing = load_fetched_ids fs in
      case get_record_count a from_date to_date of
        Inl e \<Rightarrow> (Inl e, fs)
      | Inr total_records \<Rightarrow>
          if total_records = 0 then (Inr None, fs)
          else
            (let old = (case out_path fs of None \<Rightarrow> [] | Some recs \<Rightarrow> recs) in
             case incremental_pages (get_page a from_date to_date) total_records (page_range total_records)
                    \<lparr>existing_ids = existing, written = [], new_ids = [], latest_date = None\<rparr> of
               (Some e, st) \<Rightarrow> (Inl e, fs\<lparr>out_path := Some (old @ written st)\<rparr>)
             | (None, st) \<Rightarrow>
                 (Inr (latest_date st),
                  (if new_ids st \<noteq> [] then append_fetched_ids (new_ids st) else (\<lambda>f. f))
                    (fs\<lparr>out_path := Some (old @ written st)\<rparr>))))"

subsection \<open>Dispatch\<close>

text \<open>
  The end of \<open>auto_fetch\<close>: \<open>if latest: save_state(latest)\<close>. An exception of the fetch
  leaves \<open>auto_fetch\<close> before it.
\<close>

definition persist_latest ::
  "(error + ustring option) \<times> files \<Rightarrow> (error + unit) \<times> files"
where
  "persist_latest r =
     (case r of
        (Inl e, fs) \<Rightarrow> (Inl e, fs)
      | (Inr None, fs) \<Rightarrow> (Inr (), fs)
      | (Inr (Some latest), fs) \<Rightarrow>
          (Inr (), if latest \<noteq> [] then save_state latest fs else fs))"

definition auto_fetch ::
  "date \<Rightarrow> (ustring \<Rightarrow> date option) \<Rightarrow> api \<Rightarrow> files \<Rightarrow> (error + unit) \<times> files"
where
  "auto_fetch today fromisoformat a fs =
     (let state = load_state fs in
      if out_path fs = None \<or> out_path fs = Some [] then
        persist_latest (fetch_initial a INIT_FROM_DATE today fs)
      else
        (case state of
           JStr last_fetched \<Rightarrow>
             if last_fetched \<noteq> [] then
               (case fromisoformat last_fetched of
                  None \<Rightarrow> (Inl ValueError, fs)
                | Some last_date \<Rightarrow>
                    (case minus_days last_date 3 of
                       Inl e \<Rightarrow> (Inl e, fs)
                     | Inr from_date \<Rightarrow>
                         persist_latest (fetch_incremental a from_date today fs)))
             else persist_latest (fetch_incremental a INIT_FROM_DATE today fs)
         | JNull \<Rightarrow> persist_latest (fetch_incremental a INIT_FROM_DATE today fs)))"

section \<open>Notions the claims about the fetcher use\<close>

text \<open>
  The identifier and the date of a record as the loops read them: present when the field
  is a string that is not empty.
\<close>

definition record_id :: "speech_rec \<Rightarrow> ustring option" where
  "record_id rec =
     (case py_get rec ''speechID'' of JNull \<Rightarrow> None | JStr s \<Rightarrow> if s \<noteq> [] then Some s else None)"

definition record_date :: "speech_rec \<Rightarrow> ustring option" where
  "record_date rec =
     (case py_get rec ''date'' of JNull \<Rightarrow> None | JStr d \<Rightarrow> if d \<noteq> [] then Some d else None)"

fun ids_of :: "speech_rec list \<Rightarrow> ustring list" where
  "ids_of [] = []"
| "ids_of (rec # recs) =
     (case record_id rec of None \<Rightarrow> ids_of recs | Some s \<Rightarrow> s # ids_of recs)"

fun dates_of :: "speech_rec list \<Rightarrow> ustring list" where
  "dates_of [] = []"
| "dates_of (rec # recs) =
     (case record_date rec of None \<Rightarrow> dates_of recs | Some d \<Rightarrow> d # dates_of recs)"

text \<open>The latest of a list of dates in the order of strings; \<open>None\<close> when there is none.\<close>

definition latest_of :: "ustring list \<Rightarrow> ustring option" where
  "latest_of ds = (if ds = [] then None else Some (Max (set ds)))"

text \<open>The records of the record file, none when the file is not there.\<close>

definition old_records :: "files \<Rightarrow> speech_rec list" where
  "old_records fs = (case out_path fs of None \<Rightarrow> [] | Some recs \<Rightarrow> recs)"

text \<open>
  The text of the identifier file, and the identifiers it holds line by line, as
  \<open>load_fetched_ids\<close> reads them.
\<close>

definition ids_text :: "files \<Rightarrow> ustring" where
  "ids_text fs = (case ids_path fs of None \<Rightarrow> [] | Some t \<Rightarrow> t)"

definition file_ids :: "ustring \<Rightarrow> ustring list" where
  "file_ids t = filter (\<lambda>l. l \<noteq> []) (map strip (read_lines [] t))"

definition ends_with_newline :: "ustring \<Rightarrow> bool" where
  "ends_with_newline t \<longleftrightarrow> t = [] \<or> last t = 10"

text \<open>
  An identifier that the identifier file gives back as it was written: it is not empty,
  it has no line break, and it neither starts nor ends with whitespace.
\<close>

definition clean_id :: "ustring \<Rightarrow> bool" where
  "clean_id s \<longleftrightarrow>
     s \<noteq> [] \<and> \<not> is_space (hd s) \<and> \<not> is_space (last s) \<and> 10 \<notin> set s \<and> 13 \<notin> set s"

definition clean_recs :: "speech_rec list \<Rightarrow> bool" where
  "clean_recs recs \<longleftrightarrow> (\<forall>s \<in> set (ids_of recs). clean_id s)"

definition clean_api :: "api \<Rightarrow> bool" where
  "clean_api a \<longleftrightarrow>
     (\<forall>from_date to_date s data. get_page a from_date to_date s = Inr data
        \<longrightarrow> clean_recs (speech_records_list data))"

text \<open>
  The identifier file is in order when it is empty or ends with a line break and holds
  no identifier twice. The record file is covered when, besides, every identifier of its
  records is in the identifier file. Both hold when there are no files.
\<close>

definition ids_file_ok :: "files \<Rightarrow> bool" where
  "ids_file_ok fs \<longleftrightarrow>
     ends_with_newline (ids_text fs) \<and> distinct (file_ids (ids_text fs))"

definition records_covered :: "files \<Rightarrow> bool" where
  "records_covered fs \<longleftrightarrow>
     ends_with_newline (ids_text fs) \<and> set (ids_of (old_records fs)) \<subseteq> load_fetched_ids fs"

text \<open>What the loops keep true of their states.\<close>

definition initial_inv :: "initial_state \<Rightarrow> bool" where
  "initial_inv st \<longleftrightarrow>
     i_latest_date st = latest_of (dates_of (i_written st))
   \<and> set (all_ids st) = set (ids_of (i_written st)) \<and> distinct (all_ids st)"

definition incremental_inv :: "ustring set \<Rightarrow> incremental_state \<Rightarrow> bool" where
  "incremental_inv existing st \<longleftrightarrow>
     latest_date st = latest_of (dates_of (written st))
   \<and> existing_ids st = existing \<union> set (new_ids st)
   \<and> set (new_ids st) \<inter> existing = {}
   \<and> ids_of (written st) = new_ids st
   \<and> distinct (new_ids st)"

text \<open>
  Sequences of runs: \<open>fetch_runs\<close> gives the files after full and incremental fetches,
  whatever the end of each; \<open>incremental_runs\<close> gives the files after incremental fetches
  that all completed, and \<open>None\<close> when one raised.
\<close>

datatype fetch_run = Full api date date | Incremental api date date

fun run_api :: "fetch_run \<Rightarrow> api" where
  "run_api (Full a from_date to_date) = a"
| "run_api (Incremental a from_date to_date) = a"

fun run_fetch :: "fetch_run \<Rightarrow> files \<Rightarrow> (error + ustring option) \<times> files" where
  "run_fetch (Full a from_date to_date) fs = fetch_initial a from_date to_date fs"
| "run_fetch (Incremental a from_date to_date) fs = fetch_incremental a from_date to_date fs"

fun fetch_runs :: "fetch_run list \<Rightarrow> files \<Rightarrow> files" where
  "fetch_runs [] fs = fs"
| "fetch_runs (r # rs) fs = fetch_runs rs (snd (run_fetch r fs))"

fun incremental_runs :: "(api \<times> date \<times> date) list \<Rightarrow> files \<Rightarrow> files option" where
  "incremental_runs [] fs = Some fs"
| "incremental_runs ((a, from_date, to_date) # rs) fs =
     (case fetch_incremental a from_date to_date fs of
        (Inl e, fs') \<Rightarrow> None
      | (Inr latest, fs') \<Rightarrow> incremental_runs rs fs')"

section \<open>Sample inputs\<close>

text \<open>A store of three documents, two of them of the target speaker.\<close>

definition db0 :: "document list" where
  "db0 = [\<lparr>page_content = [97], metadata = [''speaker'' \<mapsto> MStr DEFAULT_SPEAKER]\<rparr>,
          \<lparr>page_content = [98], metadata = [''speaker'' \<mapsto> MStr [88]]\<rparr>,
          \<lparr>page_content = [99], metadata = [''speaker'' \<mapsto> MStr DEFAULT_SPEAKER,
                                                ''source'' \<mapsto> MStr [115]]\<rparr>]"

text \<open>An active and a temporary index directory; a child is \<open>True\<close> when it is a directory.\<close>

definition fs0 :: "bool filesystem" where
  "fs0 = \<lparr>paths = [''chroma_db'' \<mapsto> Dir 5 [(''chroma.sqlite3'', False), (''0a1b'', True)],
                   ''chroma_db_temp'' \<mapsto> Dir 7 [(''chroma.sqlite3'', False), (''9f8e'', True)]],
          next_inode = 8\<rparr>"

text \<open>A short record of the target speaker.\<close>

definition rec1 :: speech_rec where
  "rec1 = [''speaker'' \<mapsto> JStr DEFAULT_SPEAKER, ''speech'' \<mapsto> JStr [104, 105]]"

text \<open>
  Runs of the fetcher: no files at the start; records with and without identifier and
  date, and one whose identifier starts with a space; an API that delivers a given list
  of records on one page; an API whose second page fails; two dates, and files after a
  first fetch of \<open>rec_a\<close> with the state 2024-03-02.
\<close>

definition no_files :: files where
  "no_files = \<lparr>out_path = None, state_path = None, ids_path = None\<rparr>"

definition rec_a :: speech_rec where
  "rec_a = [''speechID'' \<mapsto> JStr [97], ''date'' \<mapsto> JStr [50, 48, 50, 52, 45, 48, 51, 45, 48, 49]]"

definition rec_b :: speech_rec where
  "rec_b = [''speechID'' \<mapsto> JStr [98], ''date'' \<mapsto> JStr [50, 48, 50, 52, 45, 48, 50, 45, 50, 57]]"

definition rec_padded :: speech_rec where
  "rec_padded = [''speechID'' \<mapsto> JStr [32, 97]]"

definition rec_no_id :: speech_rec where
  "rec_no_id = [''date'' \<mapsto> JStr [50, 48, 50, 52, 45, 48, 51, 45, 48, 49]]"

definition rec_no_date :: speech_rec where
  "rec_no_date = [''speechID'' \<mapsto> JStr [97]]"

definition api_of :: "speech_rec list \<Rightarrow> api" where
  "api_of recs =
     \<lparr>get_record_count = (\<lambda>from_date to_date. Inr (int (length recs))),
      get_page = (\<lambda>from_date to_date start_record. Inr (Many recs))\<rparr>"

definition api_failing :: api where
  "api_failing =
     \<lparr>get_record_count = (\<lambda>from_date to_date. Inr 150),
      get_page = (\<lambda>from_date to_date start_record.
                    if start_record = 1 then Inr (Many [rec_a]) else Inl HTTPError)\<rparr>"

definition d0 :: date where "d0 = (2023, 1, 1)"

definition d1 :: date where "d1 = (2024, 3, 4)"

definition files_a :: files where
  "files_a = \<lparr>out_path = Some [rec_a],
              state_path = Some (JStr [50, 48, 50, 52, 45, 48, 51, 45, 48, 50]),
              ids_path = Some [97, 10]\<rparr>"

definition parse_march_2 :: "ustring \<Rightarrow> date option" where
  "parse_march_2 s = (if s = [50, 48, 50, 52, 45, 48, 51, 45, 48, 50] then Some (2024, 3, 2) else None)"

text \<open>
  Records for the builder: one whose speech is \<open>null\<close>, a short one, and one of 2000
  characters of speech; a splitter that makes two chunks, the first of the chunk size and
  the second from the overlap before its end.
\<close>

definition rec_null_speech :: speech_rec where
  "rec_null_speech = [''speaker'' \<mapsto> JStr DEFAULT_SPEAKER, ''speech'' \<mapsto> JNull]"

definition rec_short :: speech_rec where
  "rec_short = [''date'' \<mapsto> JStr [50, 48, 50, 52], ''speaker'' \<mapsto> JNull,
                ''speech'' \<mapsto> JStr [104, 105]]"

definition rec_long :: speech_rec where
  "rec_long = [''speech'' \<mapsto> JStr (replicate 2000 12354)]"

definition two_chunks :: "text_splitter \<Rightarrow> ustring \<Rightarrow> ustring list" where
  "two_chunks cfg t = [take (chunk_size cfg) t, drop (chunk_size cfg - chunk_overlap cfg) t]"

text \<open>Files after a fetch of the record without identifier, with the state 2024-03-02.\<close>

definition files_b :: files where
  "files_b = \<lparr>out_path = Some [rec_no_id],
              state_path = Some (JStr [50, 48, 50, 52, 45, 48, 51, 45, 48, 50]),
              ids_path = None\<rparr>"

section \<open>Theorems: document generation\<close>

lemmas label_defs = LABEL_DATE_def LABEL_HOUSE_def LABEL_MEETING_def LABEL_SPEAKER_def

lemma build_base_text_error: "build_base_text rec = Inl e \<Longrightarrow> e = TypeError"
  by (auto simp: build_base_text_def Let_def split: option.splits jval.splits)

lemma record_documents_error:
  "record_documents split_text rec_idx rec = Inl e \<longleftrightarrow> build_base_text rec = Inl e"
  by (auto simp: record_documents_def Let_def split: sum.splits)

lemma record_documents_index:
  assumes "record_documents split_text rec_idx rec = Inr ds" and "d \<in> set ds"
  shows "metadata d ''record_index'' = Some (MInt rec_idx)"
proof -
  have m: "build_metadata rec rec_idx ''record_index'' = Some (MInt rec_idx)"
    by (simp add: build_metadata_def)
  from assms show ?thesis
    by (auto simp: record_documents_def Let_def m in_set_enumerate_eq
          split: sum.splits if_splits)
qed

lemma build_documents_from_index:
  "d \<in> set (fst (build_documents_from split_text rec_idx recs)) \<Longrightarrow>
     \<exists>i. rec_idx \<le> i \<and> i < rec_idx + int (length recs)
       \<and> metadata d ''record_index'' = Some (MInt i)"
proof (induction recs arbitrary: rec_idx)
  case Nil
  then show ?case by simp
next
  case (Cons rec recs)
  show ?case
  proof (cases "record_documents split_text rec_idx rec")
    case (Inl e)
    with Cons.prems show ?thesis by simp
  next
    case (Inr ds)
    with Cons.prems consider "d \<in> set ds"
      | "d \<in> set (fst (build_documents_from split_text (rec_idx + 1) recs))"
      by (auto split: prod.splits)
    then show ?thesis
    proof cases
      case 1
      from record_documents_index [OF Inr 1] show ?thesis
        by (intro exI [of _ rec_idx]) simp
    next
      case 2
      from Cons.IH [OF 2] obtain i where "rec_idx + 1 \<le> i" "i < rec_idx + 1 + int (length recs)"
        "metadata d ''record_index'' = Some (MInt i)" by blast
      then show ?thesis by (intro exI [of _ i]) simp
    qed
  qed
qed

lemma documents_of_record_outside:
  assumes "j < rec_idx \<or> rec_idx + int (length recs) \<le> j"
  shows "documents_of_record j (fst (build_documents_from split_text rec_idx recs)) = []"
proof -
  have "metadata d ''record_index'' \<noteq> Some (MInt j)"
    if "d \<in> set (fst (build_documents_from split_text rec_idx recs))" for d
    using build_documents_from_index [OF that] assms by auto
  then show ?thesis by (auto simp: documents_of_record_def filter_empty_conv)
qed

lemma documents_of_record_append:
  "documents_of_record j (xs @ ys) = documents_of_record j xs @ documents_of_record j ys"
  by (simp add: documents_of_record_def)

lemma build_documents_from_Cons:
  "record_documents split_text rec_idx rec = Inr ds \<Longrightarrow>
     build_documents_from split_text rec_idx (rec # recs) =
       (ds @ fst (build_documents_from split_text (rec_idx + 1) recs),
        snd (build_documents_from split_text (rec_idx + 1) recs))"
  by (simp split: prod.splits)

lemma build_documents_from_all:
  "\<forall>r \<in> set recs. has_base_text r \<Longrightarrow> snd (build_documents_from split_text rec_idx recs) = None"
proof (induction recs arbitrary: rec_idx)
  case Nil
  then show ?case by simp
next
  case (Cons rec recs)
  then obtain base_text where "build_base_text rec = Inr base_text"
    by (auto simp: has_base_text_def)
  then obtain ds where "record_documents split_text rec_idx rec = Inr ds"
    by (cases "record_documents split_text rec_idx rec") (simp_all add: record_documents_error)
  from build_documents_from_Cons [OF this] Cons show ?case by simp
qed

lemma build_documents_from_some:
  "\<not> (\<forall>r \<in> set recs. has_base_text r)
     \<Longrightarrow> snd (build_documents_from split_text rec_idx recs) = Some TypeError"
proof (induction recs arbitrary: rec_idx)
  case Nil
  then show ?case by simp
next
  case (Cons rec recs)
  show ?case
  proof (cases "record_documents split_text rec_idx rec")
    case (Inl e)
    then have "e = TypeError" by (simp add: record_documents_error build_base_text_error)
    with Inl show ?thesis by simp
  next
    case (Inr ds)
    then have "has_base_text rec"
      by (auto simp: has_base_text_def record_documents_def split: sum.splits)
    with Cons.prems have "\<not> (\<forall>r \<in> set recs. has_base_text r)" by simp
    from Cons.IH [OF this] build_documents_from_Cons [OF Inr] show ?thesis by simp
  qed
qed

lemma build_documents_from_append:
  "build_documents_from split_text rec_idx (pre @ rest) =
     (case snd (build_documents_from split_text rec_idx pre) of
        None \<Rightarrow>
          (fst (build_documents_from split_text rec_idx pre)
             @ fst (build_documents_from split_text (rec_idx + int (length pre)) rest),
           snd (build_documents_from split_text (rec_idx + int (length pre)) rest))
      | Some e \<Rightarrow> build_documents_from split_text rec_idx pre)"
proof (induction pre arbitrary: rec_idx)
  case Nil
  then show ?case by simp
next
  case (Cons rec pre)
  show ?case
  proof (cases "record_documents split_text rec_idx rec")
    case (Inl e)
    then show ?thesis by simp
  next
    case (Inr ds)
    have a: "rec_idx + 1 + int (length pre) = rec_idx + (1 + int (length pre))" by simp
    show ?thesis
      using Inr Cons.IH [of "rec_idx + 1"]
      by (simp add: a split: prod.splits option.splits)
  qed
qed

text \<open>The stream around the record at one place of the file.\<close>

lemma build_documents_at:
  assumes "record_documents split_text (int (length pre) + 1) rec = Inr ds"
  shows "(\<forall>r \<in> set pre. has_base_text r) \<longrightarrow>
           fst (build_documents split_text (pre @ rec # post)) =
             fst (build_documents split_text pre) @ ds
               @ fst (build_documents_from split_text (int (length pre) + 2) post)
         \<and> documents_of_record (int (length pre) + 1)
             (fst (build_documents split_text (pre @ rec # post))) = ds"
    and "\<not> (\<forall>r \<in> set pre. has_base_text r) \<longrightarrow>
           build_documents split_text (pre @ rec # post) = build_documents split_text pre
         \<and> snd (build_documents split_text (pre @ rec # post)) = Some TypeError
         \<and> documents_of_record (int (length pre) + 1)
             (fst (build_documents split_text (pre @ rec # post))) = []"
proof -
  let ?j = "int (length pre) + 1"
  have app: "build_documents_from split_text 1 (pre @ rec # post) =
     (case snd (build_documents_from split_text 1 pre) of
        None \<Rightarrow>
          (fst (build_documents_from split_text 1 pre)
             @ fst (build_documents_from split_text (1 + int (length pre)) (rec # post)),
           snd (build_documents_from split_text (1 + int (length pre)) (rec # post)))
      | Some e \<Rightarrow> build_documents_from split_text 1 pre)"
    by (rule build_documents_from_append)
  have j: "1 + int (length pre) = ?j" "?j + 1 = int (length pre) + 2" by simp_all
  have pre0: "documents_of_record ?j (fst (build_documents_from split_text 1 pre)) = []"
    by (rule documents_of_record_outside) simp
  have post0: "documents_of_record ?j
      (fst (build_documents_from split_text (int (length pre) + 2) post)) = []"
    by (rule documents_of_record_outside) simp
  have own: "documents_of_record ?j ds = ds"
    using record_documents_index [OF assms]
    by (simp add: documents_of_record_def)
  show "(\<forall>r \<in> set pre. has_base_text r) \<longrightarrow>
           fst (build_documents split_text (pre @ rec # post)) =
             fst (build_documents split_text pre) @ ds
               @ fst (build_documents_from split_text (int (length pre) + 2) post)
         \<and> documents_of_record (int (length pre) + 1)
             (fst (build_documents split_text (pre @ rec # post))) = ds"
  proof
    assume "\<forall>r \<in> set pre. has_base_text r"
    then have "snd (build_documents_from split_text 1 pre) = None"
      by (rule build_documents_from_all)
    with app assms have f: "fst (build_documents split_text (pre @ rec # post)) =
             fst (build_documents split_text pre) @ ds
               @ fst (build_documents_from split_text (int (length pre) + 2) post)"
      by (simp add: build_documents_def j split: prod.splits)
    then show "fst (build_documents split_text (pre @ rec # post)) =
             fst (build_documents split_text pre) @ ds
               @ fst (build_documents_from split_text (int (length pre) + 2) post)
         \<and> documents_of_record (int (length pre) + 1)
             (fst (build_documents split_text (pre @ rec # post))) = ds"
      using pre0 post0 own
      by (simp add: documents_of_record_append build_documents_def)
  qed
  show "\<not> (\<forall>r \<in> set pre. has_base_text r) \<longrightarrow>
           build_documents split_text (pre @ rec # post) = build_documents split_text pre
         \<and> snd (build_documents split_text (pre @ rec # post)) = Some TypeError
         \<and> documents_of_record (int (length pre) + 1)
             (fst (build_documents split_text (pre @ rec # post))) = []"
  proof
    assume n: "\<not> (\<forall>r \<in> set pre. has_base_text r)"
    then have e: "snd (build_documents_from split_text 1 pre) = Some TypeError"
      by (rule build_documents_from_some)
    with app have "build_documents split_text (pre @ rec # post) = build_documents split_text pre"
      by (simp add: build_documents_def)
    then show "build_documents split_text (pre @ rec # post) = build_documents split_text pre
         \<and> snd (build_documents split_text (pre @ rec # post)) = Some TypeError
         \<and> documents_of_record (int (length pre) + 1)
             (fst (build_documents split_text (pre @ rec # post))) = []"
      using e pre0 by (simp add: build_documents_def)
  qed
qed

lemma record_documents_short:
  assumes "build_base_text rec = Inr base_text" and "length base_text \<le> 1200"
  shows "record_documents split_text rec_idx rec =
    Inr [\<lparr>page_content = base_text,
          metadata = (build_metadata rec rec_idx)(''chunk_index'' \<mapsto> MInt 0,
                                                    ''chunk_count'' \<mapsto> MInt 1)\<rparr>]"
  using assms by (simp add: record_documents_def MAX_LEN_NO_SPLIT_def)

text \<open>
  Claim C5, as amended. Take a record whose formatted text (header and speech) has at most
  1200 characters, at any place of the record file. When every record before it has a
  formatted text, \<open>build_documents\<close> yields the documents of the records before it, then
  exactly one document for it (its content is the formatted text, its metadata is the
  record's with its number in the file, chunk index 0 and chunk count 1), then the
  documents of the records after it. When \<open>build_base_text\<close> raises for a record before
  it, the generator has ended there with that \<open>TypeError\<close> and yields no document for it.
\<close>

theorem build_documents_short_record:
  assumes "build_base_text rec = Inr base_text" and "length base_text \<le> 1200"
  shows "((\<forall>r \<in> set pre. has_base_text r) \<longrightarrow>
            fst (build_documents split_text (pre @ rec # post)) =
              fst (build_documents split_text pre)
                @ [\<lparr>page_content = base_text,
                     metadata = (build_metadata rec (int (length pre) + 1))
                       (''chunk_index'' \<mapsto> MInt 0, ''chunk_count'' \<mapsto> MInt 1)\<rparr>]
                @ fst (build_documents_from split_text (int (length pre) + 2) post)
          \<and> documents_of_record (int (length pre) + 1)
              (fst (build_documents split_text (pre @ rec # post))) =
              [\<lparr>page_content = base_text,
                 metadata = (build_metadata rec (int (length pre) + 1))
                   (''chunk_index'' \<mapsto> MInt 0, ''chunk_count'' \<mapsto> MInt 1)\<rparr>])
       \<and> (\<not> (\<forall>r \<in> set pre. has_base_text r) \<longrightarrow>
            build_documents split_text (pre @ rec # post) = build_documents split_text pre
          \<and> snd (build_documents split_text (pre @ rec # post)) = Some TypeError
          \<and> documents_of_record (int (length pre) + 1)
              (fst (build_documents split_text (pre @ rec # post))) = [])"
  using build_documents_at
    [OF record_documents_short [OF assms, of split_text "int (length pre) + 1"], of post]
  by blast

lemma rec_short_text:
  "build_base_text rec_short
     = Inr (LABEL_DATE @ [50, 48, 50, 52, 10] @ LABEL_HOUSE @ [10] @ LABEL_MEETING @ [10]
            @ LABEL_SPEAKER @ [78, 111, 110, 101, 10, 10, 104, 105])"
  "length (LABEL_DATE @ [50, 48, 50, 52, 10] @ LABEL_HOUSE @ [10] @ LABEL_MEETING @ [10]
            @ LABEL_SPEAKER @ [78, 111, 110, 101, 10, 10, 104, 105]) = 31"
  by (simp_all add: build_base_text_def fmt_get_def Let_def rec_short_def label_defs)

lemma has_base_text_rec1: "has_base_text rec1"
  by (simp add: has_base_text_def build_base_text_def Let_def rec1_def)

lemma no_base_text_null_speech: "\<not> has_base_text rec_null_speech"
  by (simp add: has_base_text_def build_base_text_def Let_def rec_null_speech_def)

theorem build_documents_short_record_witness:
  "build_base_text rec_short
     = Inr (LABEL_DATE @ [50, 48, 50, 52, 10] @ LABEL_HOUSE @ [10] @ LABEL_MEETING @ [10]
            @ LABEL_SPEAKER @ [78, 111, 110, 101, 10, 10, 104, 105])
   \<and> length (LABEL_DATE @ [50, 48, 50, 52, 10] @ LABEL_HOUSE @ [10] @ LABEL_MEETING @ [10]
            @ LABEL_SPEAKER @ [78, 111, 110, 101, 10, 10, 104, 105]) = 31
   \<and> has_base_text rec1
   \<and> documents_of_record 2 (fst (build_documents two_chunks [rec1, rec_short, rec1])) =
       [\<lparr>page_content = LABEL_DATE @ [50, 48, 50, 52, 10] @ LABEL_HOUSE @ [10]
            @ LABEL_MEETING @ [10] @ LABEL_SPEAKER @ [78, 111, 110, 101, 10, 10, 104, 105],
         metadata = (build_metadata rec_short 2)
            (''chunk_index'' \<mapsto> MInt 0, ''chunk_count'' \<mapsto> MInt 1)\<rparr>]
   \<and> \<not> has_base_text rec_null_speech
   \<and> documents_of_record 2 (fst (build_documents two_chunks [rec_null_speech, rec_short])) = []"
proof -
  let ?base = "LABEL_DATE @ [50, 48, 50, 52, 10] @ LABEL_HOUSE @ [10] @ LABEL_MEETING @ [10]
            @ LABEL_SPEAKER @ [78, 111, 110, 101, 10, 10, 104, 105]"
  have l: "length ?base \<le> 1200" using rec_short_text(2) by simp
  note t1 = build_documents_short_record [OF rec_short_text(1) l,
      where pre = "[rec1]" and split_text = two_chunks and post = "[rec1]"]
  note t2 = build_documents_short_record [OF rec_short_text(1) l,
      where pre = "[rec_null_speech]" and split_text = two_chunks and post = "[]"]
  have p1: "\<forall>r \<in> set [rec1]. has_base_text r" using has_base_text_rec1 by simp
  have p2: "\<not> (\<forall>r \<in> set [rec_null_speech]. has_base_text r)"
    using no_base_text_null_speech by simp
  from t1 p1 have "documents_of_record (int (length [rec1]) + 1)
        (fst (build_documents two_chunks ([rec1] @ rec_short # [rec1]))) =
       [\<lparr>page_content = ?base,
         metadata = (build_metadata rec_short (int (length [rec1]) + 1))
            (''chunk_index'' \<mapsto> MInt 0, ''chunk_count'' \<mapsto> MInt 1)\<rparr>]"
    by blast
  then have a: "documents_of_record 2 (fst (build_documents two_chunks [rec1, rec_short, rec1])) =
       [\<lparr>page_content = ?base,
         metadata = (build_metadata rec_short 2)
            (''chunk_index'' \<mapsto> MInt 0, ''chunk_count'' \<mapsto> MInt 1)\<rparr>]"
    by simp
  from t2 p2 have "documents_of_record (int (length [rec_null_speech]) + 1)
        (fst (build_documents two_chunks ([rec_null_speech] @ rec_short # []))) = []"
    by blast
  then have c: "documents_of_record 2
        (fst (build_documents two_chunks [rec_null_speech, rec_short])) = []"
    by simp
  show ?thesis
    by (intro conjI rec_short_text a c has_base_text_rec1 no_base_text_null_speech)
qed

text \<open>
  The claim as stated fails behind a record whose speech is \<open>null\<close>: the short record is
  in the file and no document is yielded for it.
\<close>

theorem build_documents_short_record_counterexample:
  "build_base_text rec_short
     = Inr (LABEL_DATE @ [50, 48, 50, 52, 10] @ LABEL_HOUSE @ [10] @ LABEL_MEETING @ [10]
            @ LABEL_SPEAKER @ [78, 111, 110, 101, 10, 10, 104, 105])
   \<and> length (LABEL_DATE @ [50, 48, 50, 52, 10] @ LABEL_HOUSE @ [10] @ LABEL_MEETING @ [10]
            @ LABEL_SPEAKER @ [78, 111, 110, 101, 10, 10, 104, 105]) \<le> 1200
   \<and> build_documents two_chunks [rec_null_speech, rec_short] = ([], Some TypeError)"
  using rec_short_text
  by (simp add: build_documents_def record_documents_def build_base_text_def Let_def
        rec_null_speech_def)

lemma record_documents_long:
  assumes "build_base_text rec = Inr base_text" and "1200 < length base_text"
  shows "record_documents split_text rec_idx rec =
    Inr (map (\<lambda>(chunk_idx, chunk).
           \<lparr>page_content = chunk,
            metadata = (build_metadata rec rec_idx)
              (''chunk_index'' \<mapsto> MInt (int chunk_idx),
               ''chunk_count'' \<mapsto> MInt (int (length (split_text splitter base_text))))\<rparr>)
         (enumerate 0 (split_text splitter base_text)))"
  using assms by (simp add: record_documents_def MAX_LEN_NO_SPLIT_def Let_def)

text \<open>
  Claim C6, as amended. Take a record whose formatted text has more than 1200 characters,
  at any place of the record file. Its documents are one for each chunk the splitter,
  configured with chunk size 1200, overlap 200 and the five separators, makes of the text:
  the \<open>i\<close>-th document holds the \<open>i\<close>-th chunk, its chunk index is \<open>i\<close>, its chunk count
  is the number of chunks, and the rest of its metadata is the record's with its number in
  the file. When every record before it has a formatted text, \<open>build_documents\<close> yields
  the documents of the records before it, then these, then the documents of the records
  after it. When \<open>build_base_text\<close> raises for a record before it, the generator has ended
  there with that \<open>TypeError\<close> and yields no document for it.
\<close>

theorem build_documents_long_record:
  assumes "build_base_text rec = Inr base_text" and "1200 < length base_text"
  shows "(\<exists>ds. length ds = length (split_text splitter base_text)
          \<and> (\<forall>i < length ds.
                page_content (ds ! i) = split_text splitter base_text ! i
              \<and> metadata (ds ! i) =
                  (build_metadata rec (int (length pre) + 1))
                    (''chunk_index'' \<mapsto> MInt (int i),
                     ''chunk_count'' \<mapsto> MInt (int (length (split_text splitter base_text)))))
          \<and> ((\<forall>r \<in> set pre. has_base_text r) \<longrightarrow>
                fst (build_documents split_text (pre @ rec # post)) =
                  fst (build_documents split_text pre) @ ds
                    @ fst (build_documents_from split_text (int (length pre) + 2) post)
              \<and> documents_of_record (int (length pre) + 1)
                  (fst (build_documents split_text (pre @ rec # post))) = ds))
       \<and> (\<not> (\<forall>r \<in> set pre. has_base_text r) \<longrightarrow>
            build_documents split_text (pre @ rec # post) = build_documents split_text pre
          \<and> snd (build_documents split_text (pre @ rec # post)) = Some TypeError
          \<and> documents_of_record (int (length pre) + 1)
              (fst (build_documents split_text (pre @ rec # post))) = [])
       \<and> chunk_size splitter = 1200 \<and> chunk_overlap splitter = 200
       \<and> separators splitter = [[10, 10], [10], [12290], [12289], [32]]"
proof -
  let ?chunks = "split_text splitter base_text"
  let ?ds = "map (\<lambda>(chunk_idx, chunk).
           \<lparr>page_content = chunk,
            metadata = (build_metadata rec (int (length pre) + 1))
              (''chunk_index'' \<mapsto> MInt (int chunk_idx),
               ''chunk_count'' \<mapsto> MInt (int (length ?chunks)))\<rparr>)
         (enumerate 0 ?chunks)"
  note r = record_documents_long [OF assms, of split_text "int (length pre) + 1"]
  note at = build_documents_at [OF r, of post]
  have "length ?ds = length ?chunks" by simp
  moreover have "\<forall>i < length ?ds.
                page_content (?ds ! i) = ?chunks ! i
              \<and> metadata (?ds ! i) =
                  (build_metadata rec (int (length pre) + 1))
                    (''chunk_index'' \<mapsto> MInt (int i),
                     ''chunk_count'' \<mapsto> MInt (int (length ?chunks)))"
    by (simp add: nth_enumerate_eq)
  ultimately have "\<exists>ds. length ds = length ?chunks
          \<and> (\<forall>i < length ds.
                page_content (ds ! i) = ?chunks ! i
              \<and> metadata (ds ! i) =
                  (build_metadata rec (int (length pre) + 1))
                    (''chunk_index'' \<mapsto> MInt (int i),
                     ''chunk_count'' \<mapsto> MInt (int (length ?chunks))))
          \<and> ((\<forall>r \<in> set pre. has_base_text r) \<longrightarrow>
                fst (build_documents split_text (pre @ rec # post)) =
                  fst (build_documents split_text pre) @ ds
                    @ fst (build_documents_from split_text (int (length pre) + 2) post)
              \<and> documents_of_record (int (length pre) + 1)
                  (fst (build_documents split_text (pre @ rec # post))) = ds)"
    using at(1) by (intro exI [of _ ?ds] conjI)
  moreover have "chunk_size splitter = 1200 \<and> chunk_overlap splitter = 200
       \<and> separators splitter = [[10, 10], [10], [12290], [12289], [32]]"
    by (simp add: splitter_def CHUNK_SIZE_def CHUNK_OVERLAP_def)
  ultimately show ?thesis using at(2) by blast
qed

lemma rec_long_text:
  "\<exists>base. build_base_text rec_long = Inr base \<and> length base = 2021"
  by (simp add: build_base_text_def fmt_get_def label_defs Let_def rec_long_def)

theorem build_documents_long_record_witness:
  "(\<exists>base. build_base_text rec_long = Inr base \<and> length base = 2021)
   \<and> has_base_text rec1
   \<and> map (\<lambda>d. (length (page_content d), metadata d ''chunk_index'', metadata d ''chunk_count''))
       (documents_of_record 2 (fst (build_documents two_chunks [rec1, rec_long])))
     = [(1200, Some (MInt 0), Some (MInt 2)), (1021, Some (MInt 1), Some (MInt 2))]
   \<and> \<not> has_base_text rec_null_speech
   \<and> documents_of_record 2 (fst (build_documents two_chunks [rec_null_speech, rec_long])) = []"
proof -
  obtain base where b: "build_base_text rec_long = Inr base" and l: "length base = 2021"
    using rec_long_text by blast
  then have l': "1200 < length base" by simp
  have p: "\<forall>r \<in> set [rec1]. has_base_text r" using has_base_text_rec1 by simp
  from build_documents_long_record [OF b l',
      where pre = "[rec1]" and split_text = two_chunks and post = "[]"] p
  obtain ds where n0: "length ds = length (two_chunks splitter base)"
    and each0: "\<forall>i < length ds.
             page_content (ds ! i) = two_chunks splitter base ! i
           \<and> metadata (ds ! i) =
               (build_metadata rec_long (int (length [rec1]) + 1))
                 (''chunk_index'' \<mapsto> MInt (int i),
                  ''chunk_count'' \<mapsto> MInt (int (length (two_chunks splitter base))))"
    and ds0: "documents_of_record (int (length [rec1]) + 1)
                (fst (build_documents two_chunks ([rec1] @ rec_long # []))) = ds"
    by blast
  from n0 have n: "length ds = 2" by (simp add: two_chunks_def)
  from each0 have each: "\<forall>i < length ds.
             page_content (ds ! i) = two_chunks splitter base ! i
           \<and> metadata (ds ! i) =
               (build_metadata rec_long 2)
                 (''chunk_index'' \<mapsto> MInt (int i),
                  ''chunk_count'' \<mapsto> MInt (int (length (two_chunks splitter base))))"
    by simp
  from ds0 have ds: "documents_of_record 2 (fst (build_documents two_chunks [rec1, rec_long])) = ds"
    by simp
  from n obtain x y where d: "ds = [x, y]"
    by (cases ds; cases "tl ds") auto
  from each d have "page_content x = take 1200 base" "page_content y = drop 1000 base"
    "metadata x ''chunk_index'' = Some (MInt 0)" "metadata y ''chunk_index'' = Some (MInt 1)"
    "metadata x ''chunk_count'' = Some (MInt 2)" "metadata y ''chunk_count'' = Some (MInt 2)"
    by (auto simp: splitter_def CHUNK_SIZE_def CHUNK_OVERLAP_def two_chunks_def)
  with l ds d have m: "map (\<lambda>d. (length (page_content d), metadata d ''chunk_index'', metadata d ''chunk_count''))
       (documents_of_record 2 (fst (build_documents two_chunks [rec1, rec_long])))
     = [(1200, Some (MInt 0), Some (MInt 2)), (1021, Some (MInt 1), Some (MInt 2))]"
    by simp
  have p2: "\<not> (\<forall>r \<in> set [rec_null_speech]. has_base_text r)"
    using no_base_text_null_speech by simp
  from build_documents_long_record [OF b l',
      where pre = "[rec_null_speech]" and split_text = two_chunks and post = "[]"] p2
  have "documents_of_record (int (length [rec_null_speech]) + 1)
        (fst (build_documents two_chunks ([rec_null_speech] @ rec_long # []))) = []"
    by blast
  then have "documents_of_record 2
        (fst (build_documents two_chunks [rec_null_speech, rec_long])) = []"
    by simp
  with m rec_long_text has_base_text_rec1 no_base_text_null_speech show ?thesis by blast
qed

text \<open>
  The claim as stated fails behind a record whose speech is \<open>null\<close>: the long record is in
  the file and no document is yielded for it.
\<close>

theorem build_documents_long_record_counterexample:
  "(\<exists>base. build_base_text rec_long = Inr base \<and> length base = 2021)
   \<and> build_documents two_chunks [rec_null_speech, rec_long] = ([], Some TypeError)"
  using rec_long_text
  by (simp add: build_documents_def record_documents_def build_base_text_def Let_def
        rec_null_speech_def)

section \<open>Theorems: the speaker filter\<close>

lemma similarity_search_meets_filter:
  "similarity_search dist db query k flt = Inr docs \<Longrightarrow>
     \<forall>d \<in> set docs. d \<in> set db \<and> meets_filter flt d"
  by (auto simp: similarity_search_def split: if_splits dest: in_set_takeD)

lemma similarity_search_length:
  "similarity_search dist db query k flt = Inr docs \<Longrightarrow> int (length docs) \<le> k"
  by (auto simp: similarity_search_def split: if_splits)

text \<open>
  Claim C1. Whatever the question, the result count and the session, every context document
  \<open>answer_question\<close> returns is made from a document of the store whose \<open>speaker\<close>
  metadata is the fixed target speaker: the filter does not depend on the caller.
\<close>

theorem answer_question_speaker_filter:
  assumes "answer_question llm dist eng q k sid = (Inr result, eng')"
  shows "\<exists>e docs. eng = Some e
       \<and> context_docs result =
           map (\<lambda>d. \<lparr>content = page_content d, source = meta_get (metadata d) ''source''\<rparr>) docs
       \<and> (\<forall>d \<in> set docs. d \<in> set (vectordb e)
             \<and> metadata d ''speaker'' = Some (MStr DEFAULT_SPEAKER))
       \<and> DEFAULT_SPEAKER = [39640, 24066, 26089, 33495]"
proof -
  from assms obtain e docs where e: "eng = Some e"
    and s: "similarity_search dist (vectordb e) q k [(''speaker'', MStr DEFAULT_SPEAKER)]
              = Inr docs"
    and c: "context_docs result =
           map (\<lambda>d. \<lparr>content = page_content d, source = meta_get (metadata d) ''source''\<rparr>) docs"
    by (auto simp: answer_question_def Let_def split: option.splits sum.splits)
  from similarity_search_meets_filter [OF s]
  have "\<forall>d \<in> set docs. d \<in> set (vectordb e) \<and> metadata d ''speaker'' = Some (MStr DEFAULT_SPEAKER)"
    by (simp add: meets_filter_def)
  with e c show ?thesis by (auto simp: DEFAULT_SPEAKER_def)
qed

theorem answer_question_speaker_filter_witness:
  "\<exists>result eng'.
     answer_question (\<lambda>ctx h q. Inr ctx) (\<lambda>q d. length (page_content d))
       (Some \<lparr>vectordb = db0, history_store = Map.empty\<rparr>) [63] 5 [115] = (Inr result, eng')
   \<and> map content (context_docs result) = [[97], [99]]"
proof -
  let ?e = "\<lparr>vectordb = db0, history_store = Map.empty\<rparr>"
  obtain result eng' where
    r: "answer_question (\<lambda>ctx h q. Inr ctx) (\<lambda>q d. length (page_content d)) (Some ?e) [63] 5 [115]
          = (Inr result, eng')"
    and c: "map content (context_docs result) = [[97], [99]]"
    by (simp add: answer_question_def similarity_search_def meets_filter_def db0_def
          format_docs_def Let_def DEFAULT_SPEAKER_def)
  show ?thesis using answer_question_speaker_filter [OF r] r c
    by (intro exI [of _ result] exI [of _ eng']) simp
qed

section \<open>Theorems: promotion of the working index\<close>

lemma clear_items_subset:
  "set (map fst children) \<subseteq> set (map fst items) \<Longrightarrow> clear_items is_dir items children = []"
proof (induction items arbitrary: children)
  case Nil
  then show ?case by simp
next
  case (Cons it items)
  obtain name n where it: "it = (name, n)" by (cases it)
  let ?ch = "filter (\<lambda>(k, n). k \<noteq> name) children"
  have "set (map fst ?ch) \<subseteq> set (map fst items)"
    using Cons.prems it by auto
  then have "clear_items is_dir items ?ch = []" by (rule Cons.IH)
  then show ?case by (simp add: it rmtree_def unlink_def)
qed

lemma clear_items_all: "clear_items is_dir children children = []"
  by (rule clear_items_subset) simp

lemma map_of_filter_other:
  "k \<noteq> name \<Longrightarrow> map_of (filter (\<lambda>(k', n). k' \<noteq> name) xs) k = map_of xs k"
  by (induction xs) auto

lemma map_of_filter_same:
  "map_of (filter (\<lambda>(k', n). k' \<noteq> name) xs) name = None"
  by (induction xs) auto

lemma move_items_result:
  "move_items items tc ac = Inr (tc', ac') \<Longrightarrow>
     distinct (map fst items)
   \<and> (\<forall>k \<in> set (map fst items). map_of tc k \<noteq> None)
   \<and> tc' = filter (\<lambda>(k, n). k \<notin> set (map fst items)) tc
   \<and> ac' = ac @ map (\<lambda>(k, n). (k, the (map_of tc k))) items"
proof (induction items arbitrary: tc ac)
  case Nil
  then show ?case by simp
next
  case (Cons it items)
  obtain name n where it: "it = (name, n)" by (cases it)
  let ?tc = "filter (\<lambda>(k, n). k \<noteq> name) tc"
  from Cons.prems it obtain child where
    c: "map_of tc name = Some child" and
    rec: "move_items items ?tc (ac @ [(name, child)]) = Inr (tc', ac')"
    by (auto split: option.splits)
  note ih = Cons.IH [OF rec]
  have notin: "name \<notin> set (map fst items)"
  proof
    assume "name \<in> set (map fst items)"
    with ih have "map_of ?tc name \<noteq> None" by blast
    then show False by (simp add: map_of_filter_same)
  qed
  have same: "map_of ?tc k = map_of tc k" if "k \<in> set (map fst items)" for k
    using that notin by (intro map_of_filter_other) auto
  have d: "distinct (map fst (it # items))" using ih notin it by simp
  have dom: "\<forall>k \<in> set (map fst (it # items)). map_of tc k \<noteq> None"
    using ih same c it by auto
  have t: "tc' = filter (\<lambda>(k, n). k \<notin> set (map fst (it # items))) tc"
    using ih it by (auto intro: filter_cong)
  have "map (\<lambda>(k, n). (k, the (map_of ?tc k))) items
      = map (\<lambda>(k, n). (k, the (map_of tc k))) items"
    using same by (intro map_cong) force+
  then have a: "ac' = ac @ map (\<lambda>(k, n). (k, the (map_of tc k))) (it # items)"
    using ih c it by simp
  from d dom t a show ?case by blast
qed

lemma map_of_self:
  assumes "distinct (map fst items)"
  shows "map (\<lambda>(k, n). (k, the (map_of items k))) items = items"
proof (rule map_idI)
  fix x assume x: "x \<in> set items"
  have "map_of items (fst x) = Some (snd x)"
    using assms x by (simp add: map_of_eq_Some_iff)
  then show "(case x of (k, n) \<Rightarrow> (k, the (map_of items k))) = x"
    by (cases x) simp
qed

lemma move_items_all:
  assumes "move_items items items ac = Inr (tc', ac')"
  shows "tc' = [] \<and> ac' = ac @ items"
proof -
  note r = move_items_result [OF assms]
  have "filter (\<lambda>(k, n). k \<notin> set (map fst items)) items = []"
    by (force simp: filter_empty_conv)
  with r map_of_self show ?thesis by metis
qed

text \<open>
  Claim C2. After a successful \<open>swap_active_db\<close> on two different paths, the active
  directory lists exactly what the temporary directory listed before, the temporary
  directory is gone, and the active directory is the directory it was: it keeps its
  identity when it existed before (it is new only when there was none), and no other
  path has changed.
\<close>

theorem swap_active_db_promotes:
  assumes ok: "swap_active_db is_dir temp_dir active_dir fs = Inr fs'"
    and ne: "temp_dir \<noteq> active_dir"
  shows "\<exists>ti items ai.
           paths fs temp_dir = Some (Dir ti items)
         \<and> paths fs' active_dir = Some (Dir ai items)
         \<and> paths fs' temp_dir = None
         \<and> (case paths fs active_dir of
              Some (Dir i old) \<Rightarrow> ai = i
            | _ \<Rightarrow> ai = next_inode fs)
         \<and> (\<forall>p. p \<noteq> temp_dir \<and> p \<noteq> active_dir \<longrightarrow> paths fs' p = paths fs p)"
proof -
  from ok obtain fs1 fs2 where
    s1: "clear_or_make is_dir active_dir fs = Inr fs1" and
    s2: "move_contents temp_dir active_dir fs1 = Inr fs2" and
    s3: "rmdir temp_dir fs2 = Inr fs'"
    by (auto simp: swap_active_db_def split: sum.splits)
  define ai where "ai = (case paths fs active_dir of Some (Dir i old) \<Rightarrow> i | _ \<Rightarrow> next_inode fs)"
  from s1 have a1: "paths fs1 active_dir = Some (Dir ai [])"
    and o1: "\<forall>p. p \<noteq> active_dir \<longrightarrow> paths fs1 p = paths fs p"
    by (auto simp: clear_or_make_def ai_def clear_items_all split: option.splits entry.splits)
  from s2 a1 obtain ti items tc' ac' where
    t1: "paths fs1 temp_dir = Some (Dir ti items)" and
    mv: "move_items items items [] = Inr (tc', ac')" and
    fs2: "fs2 = fs1\<lparr>paths := (paths fs1)(temp_dir \<mapsto> Dir ti tc', active_dir \<mapsto> Dir ai ac')\<rparr>"
    by (auto simp: move_contents_def split: option.splits entry.splits sum.splits)
  from move_items_all [OF mv] have tc': "tc' = []" and ac': "ac' = items" by simp_all
  from s3 fs2 ne have fs': "fs' = fs2\<lparr>paths := (paths fs2)(temp_dir := None)\<rparr>"
    by (auto simp: rmdir_def tc' split: option.splits entry.splits if_splits)
  have "paths fs temp_dir = Some (Dir ti items)" using t1 o1 ne by simp
  moreover have "paths fs' active_dir = Some (Dir ai items)" using fs' fs2 ne ac' by simp
  moreover have "paths fs' temp_dir = None" using fs' by simp
  moreover have "case paths fs active_dir of Some (Dir i old) \<Rightarrow> ai = i | _ \<Rightarrow> ai = next_inode fs"
    by (simp add: ai_def split: option.splits entry.splits)
  moreover have "\<forall>p. p \<noteq> temp_dir \<and> p \<noteq> active_dir \<longrightarrow> paths fs' p = paths fs p"
    using fs' fs2 o1 by simp
  ultimately show ?thesis by blast
qed

theorem swap_active_db_promotes_witness:
  "\<exists>fs'. swap_active_db (\<lambda>b. b) ''chroma_db_temp'' ''chroma_db'' fs0 = Inr fs'
      \<and> paths fs' ''chroma_db'' = Some (Dir 5 [(''chroma.sqlite3'', False), (''9f8e'', True)])
      \<and> paths fs' ''chroma_db_temp'' = None"
proof -
  obtain fs' where
    ok: "swap_active_db (\<lambda>b. b) ''chroma_db_temp'' ''chroma_db'' fs0 = Inr fs'"
    by (simp add: swap_active_db_def clear_or_make_def move_contents_def rmdir_def fs0_def
          rmtree_def unlink_def)
  have ne: "''chroma_db_temp'' \<noteq> ''chroma_db''" by simp
  from swap_active_db_promotes [OF ok ne] ok show ?thesis
    by (auto simp: fs0_def)
qed

section \<open>Theorems: the HTTP API\<close>

text \<open>
  Claim C7. \<open>POST /ask\<close> with a result count of 0 or of 51 is answered with a validation
  error whatever the rest of the body, the model, the distance and the engine are, and
  leaves the engine as it was: the engine is not reached. A result count of 1 and one of
  50 pass the validation and reach \<open>ask\<close>, and through it \<open>answer_question\<close>, unchanged; a
  body without result count reaches it with the default 10.
\<close>

theorem post_ask_top_k_bounds:
  "post_ask llm dist eng (body\<lparr>body_top_k := Some 0\<rparr>) = (Inl ValidationError, eng)
 \<and> post_ask llm dist eng (body\<lparr>body_top_k := Some 51\<rparr>) = (Inl ValidationError, eng)
 \<and> AskRequest \<lparr>body_question = Some q, body_top_k = Some 1, body_session_id = Some sid\<rparr>
     = Inr \<lparr>question = q, top_k = 1, session_id = sid\<rparr>
 \<and> AskRequest \<lparr>body_question = Some q, body_top_k = Some 50, body_session_id = Some sid\<rparr>
     = Inr \<lparr>question = q, top_k = 50, session_id = sid\<rparr>
 \<and> AskRequest \<lparr>body_question = Some q, body_top_k = None, body_session_id = Some sid\<rparr>
     = Inr \<lparr>question = q, top_k = 10, session_id = sid\<rparr>
 \<and> post_ask llm dist eng \<lparr>body_question = Some q, body_top_k = Some 1, body_session_id = Some sid\<rparr>
     = ask llm dist eng \<lparr>question = q, top_k = 1, session_id = sid\<rparr>
 \<and> post_ask llm dist eng \<lparr>body_question = Some q, body_top_k = Some 50, body_session_id = Some sid\<rparr>
     = ask llm dist eng \<lparr>question = q, top_k = 50, session_id = sid\<rparr>
 \<and> post_ask llm dist eng \<lparr>body_question = Some q, body_top_k = None, body_session_id = Some sid\<rparr>
     = ask llm dist eng \<lparr>question = q, top_k = 10, session_id = sid\<rparr>"
  by (simp add: post_ask_def AskRequest_def app_DEFAULT_TOP_K_def split: option.splits)

section \<open>Theorems: the source of a context document\<close>

lemma record_documents_no_source:
  assumes "record_documents split_text rec_idx rec = Inr ds" and "d \<in> set ds"
  shows "metadata d ''source'' = None"
proof -
  have m: "build_metadata rec rec_idx ''source'' = None"
    by (simp add: build_metadata_def)
  from assms show ?thesis
    by (auto simp: record_documents_def Let_def m in_set_enumerate_eq
          split: sum.splits if_splits)
qed

lemma build_documents_from_no_source:
  "d \<in> set (fst (build_documents_from split_text rec_idx recs)) \<Longrightarrow> metadata d ''source'' = None"
proof (induction recs arbitrary: rec_idx)
  case Nil
  then show ?case by simp
next
  case (Cons rec recs)
  show ?case
  proof (cases "record_documents split_text rec_idx rec")
    case (Inl e)
    with Cons.prems show ?thesis by simp
  next
    case (Inr ds)
    with Cons.prems have "d \<in> set ds \<or> d \<in> set (fst (build_documents_from split_text (rec_idx + 1) recs))"
      by (auto split: prod.splits)
    then show ?thesis
      using record_documents_no_source [OF Inr] Cons.IH by blast
  qed
qed

text \<open>
  Claim C10. When every document of the store is one that \<open>build_documents\<close> yields (for
  any record file and any splitter), every context document \<open>answer_question\<close> returns has
  the source \<open>None\<close>: the builder's metadata has no key \<open>source\<close>.
\<close>

theorem answer_question_source_none:
  assumes "set (vectordb e) \<subseteq> set (fst (build_documents split_text recs))"
    and "answer_question llm dist (Some e) q k sid = (Inr result, eng')"
  shows "\<forall>c \<in> set (context_docs result). source c = MNone"
proof -
  from assms(2) obtain docs where
    s: "similarity_search dist (vectordb e) q k [(''speaker'', MStr DEFAULT_SPEAKER)] = Inr docs"
    and c: "context_docs result =
           map (\<lambda>d. \<lparr>content = page_content d, source = meta_get (metadata d) ''source''\<rparr>) docs"
    by (auto simp: answer_question_def Let_def split: sum.splits)
  have "set docs \<subseteq> set (vectordb e)"
    using s by (auto simp: similarity_search_def split: if_splits dest: in_set_takeD)
  with assms(1) have "\<forall>d \<in> set docs. metadata d ''source'' = None"
    by (auto simp: build_documents_def dest: build_documents_from_no_source)
  with c show ?thesis by (auto simp: meta_get_def)
qed

theorem answer_question_source_none_witness:
  "\<exists>result eng'.
     answer_question (\<lambda>ctx h q. Inr ctx) (\<lambda>q d. length (page_content d))
       (Some \<lparr>vectordb = fst (build_documents (\<lambda>cfg t. [t]) [rec1]), history_store = Map.empty\<rparr>)
       [63] 3 [115] = (Inr result, eng')
   \<and> map source (context_docs result) = [MNone]"
proof -
  let ?e = "\<lparr>vectordb = fst (build_documents (\<lambda>cfg t. [t]) [rec1]), history_store = Map.empty\<rparr>"
  have b: "build_base_text rec1 = Inr (LABEL_DATE @ [10] @ LABEL_HOUSE @ [10] @ LABEL_MEETING @ [10]
            @ LABEL_SPEAKER @ DEFAULT_SPEAKER @ [10, 10, 104, 105])"
    by (simp add: build_base_text_def fmt_get_def Let_def rec1_def)
  have m: "build_metadata rec1 1 ''speaker'' = Some (MStr DEFAULT_SPEAKER)"
    by (simp add: build_metadata_def py_get_def rec1_def)
  have db: "\<exists>d. fst (build_documents (\<lambda>cfg t. [t]) [rec1]) = [d]
              \<and> metadata d ''speaker'' = Some (MStr DEFAULT_SPEAKER)"
    using m
    by (simp add: build_documents_def record_documents_def b MAX_LEN_NO_SPLIT_def
          LABEL_DATE_def LABEL_HOUSE_def LABEL_MEETING_def LABEL_SPEAKER_def DEFAULT_SPEAKER_def)
  then obtain d where d: "fst (build_documents (\<lambda>cfg t. [t]) [rec1]) = [d]"
    and sp: "metadata d ''speaker'' = Some (MStr DEFAULT_SPEAKER)" by blast
  obtain result eng' where
    r: "answer_question (\<lambda>ctx h q. Inr ctx) (\<lambda>q d. length (page_content d)) (Some ?e) [63] 3 [115]
          = (Inr result, eng')"
    and n: "length (context_docs result) = 1"
    by (simp add: answer_question_def similarity_search_def meets_filter_def d sp Let_def)
  have "set (vectordb ?e) \<subseteq> set (fst (build_documents (\<lambda>cfg t. [t]) [rec1]))" by simp
  from answer_question_source_none [OF this r] n
  have "map source (context_docs result) = [MNone]"
    by (cases "context_docs result") auto
  with r show ?thesis
    by (intro exI [of _ result] exI [of _ eng']) simp
qed

section \<open>Theorems: a fetch that finds nothing new\<close>

lemma incremental_records_known:
  "\<forall>r \<in> set recs. is_duplicate (existing_ids st) (py_get r ''speechID'')
     \<Longrightarrow> incremental_records recs st = st"
  by (induction recs arbitrary: st) (simp_all add: incremental_record_def)

lemma incremental_pages_known:
  assumes "\<forall>s data. page s = Inr data \<longrightarrow>
             (\<forall>r \<in> set (speech_records_list data).
                is_duplicate (existing_ids st) (py_get r ''speechID''))"
  shows "snd (incremental_pages page total_records is st) = st"
  using assms
proof (induction "is" arbitrary: st)
  case Nil
  then show ?case by simp
next
  case (Cons i "is")
  show ?case
  proof (cases "page (1 + int i * MAX_RECORDS_PER_REQUEST)")
    case (Inl e)
    then show ?thesis by (simp add: Let_def)
  next
    case (Inr data)
    with Cons.prems have "incremental_records (speech_records_list data) st = st"
      by (intro incremental_records_known) blast
    with Inr Cons show ?thesis by (simp add: Let_def)
  qed
qed

lemma fetch_incremental_known:
  assumes "out_path fs = Some recs"
    and "\<forall>s data. get_page a from_date to_date s = Inr data \<longrightarrow>
           (\<forall>r \<in> set (speech_records_list data).
              \<exists>speech_id. py_get r ''speechID'' = JStr speech_id
                \<and> speech_id \<in> load_fetched_ids fs)"
  shows "snd (fetch_incremental a from_date to_date fs) = fs"
    and "fst (fetch_incremental a from_date to_date fs) \<in> range Inl \<union> {Inr None}"
proof -
  have ne: "s \<noteq> []" if "s \<in> load_fetched_ids fs" for s
    using that by (auto simp: load_fetched_ids_def split: option.splits)
  let ?st = "\<lparr>existing_ids = load_fetched_ids fs, written = [], new_ids = [], latest_date = None\<rparr>"
  have "\<forall>s data. get_page a from_date to_date s = Inr data \<longrightarrow>
           (\<forall>r \<in> set (speech_records_list data).
              is_duplicate (existing_ids ?st) (py_get r ''speechID''))"
    using assms(2) ne by (fastforce simp: is_duplicate_def)
  then have st: "snd (incremental_pages (get_page a from_date to_date) n is ?st) = ?st" for n "is"
    by (rule incremental_pages_known)
  have same: "fs\<lparr>out_path := Some recs\<rparr> = fs" using assms(1) by simp
  have both: "snd (fetch_incremental a from_date to_date fs) = fs
      \<and> fst (fetch_incremental a from_date to_date fs) \<in> range Inl \<union> {Inr None}"
  proof (cases "get_record_count a from_date to_date")
    case (Inl e)
    then show ?thesis by (simp add: fetch_incremental_def)
  next
    case (Inr n)
    show ?thesis
    proof (cases "n = 0")
      case True
      with Inr show ?thesis by (simp add: fetch_incremental_def)
    next
      case False
      obtain err st' where
        pg: "incremental_pages (get_page a from_date to_date) n (page_range n) ?st = (err, st')"
        by (cases "incremental_pages (get_page a from_date to_date) n (page_range n) ?st")
      with st [of n "page_range n"] have "st' = ?st" by simp
      with pg Inr False assms(1) same show ?thesis
        by (cases err) (simp_all add: fetch_incremental_def)
    qed
  qed
  then show "snd (fetch_incremental a from_date to_date fs) = fs"
    and "fst (fetch_incremental a from_date to_date fs) \<in> range Inl \<union> {Inr None}"
    by simp_all
qed

lemma persist_latest_nothing:
  "fst r \<in> range Inl \<union> {Inr None} \<Longrightarrow> snd (persist_latest r) = snd r"
  by (cases r) (auto simp: persist_latest_def)

text \<open>
  Claim C4, as amended. When the record file exists and every record the API delivers
  has a non-empty identifier that is in the identifier file, an incremental fetch leaves
  the record file, the identifier file and the state file as they were, whatever the date
  range and however the run ends; so does \<open>auto_fetch\<close> when the record file is not
  empty. This is the second of two runs over the same data.
\<close>

theorem incremental_fetch_idempotent:
  assumes "out_path fs = Some recs"
    and "\<forall>from_date to_date s data. get_page a from_date to_date s = Inr data \<longrightarrow>
           (\<forall>r \<in> set (speech_records_list data).
              \<exists>speech_id. py_get r ''speechID'' = JStr speech_id
                \<and> speech_id \<in> load_fetched_ids fs)"
  shows "snd (fetch_incremental a from_date to_date fs) = fs
       \<and> (recs \<noteq> [] \<longrightarrow> snd (auto_fetch today fromisoformat a fs) = fs)"
proof -
  have k: "\<forall>s data. get_page a f t s = Inr data \<longrightarrow>
           (\<forall>r \<in> set (speech_records_list data).
              \<exists>speech_id. py_get r ''speechID'' = JStr speech_id
                \<and> speech_id \<in> load_fetched_ids fs)" for f t
    using assms(2) by blast
  have p: "snd (persist_latest (fetch_incremental a f today fs)) = fs" for f
    using fetch_incremental_known [OF assms(1) k [of f today]]
    by (simp add: persist_latest_nothing)
  have "snd (fetch_incremental a from_date to_date fs) = fs"
    using fetch_incremental_known(1) [OF assms(1) k [of from_date to_date]] .
  moreover have "snd (auto_fetch today fromisoformat a fs) = fs" if "recs \<noteq> []"
    using assms(1) that p
    by (auto simp: auto_fetch_def Let_def split: jval.splits option.splits sum.splits)
  ultimately show ?thesis by simp
qed

lemmas fetch_defs =
  fetch_initial_def fetch_incremental_def auto_fetch_def persist_latest_def
  page_range_def page_count_def MAX_RECORDS_PER_REQUEST_def
  initial_record_def incremental_record_def is_duplicate_def set_add_def
  load_fetched_ids_def load_state_def save_state_def save_fetched_ids_def
  append_fetched_ids_def id_lines_def strip_def is_space_def py_get_def api_of_def
  no_files_def Let_def

theorem incremental_fetch_idempotent_witness:
  "out_path files_a = Some [rec_a]
 \<and> [97] \<in> load_fetched_ids files_a
 \<and> snd (fetch_incremental (api_of [rec_a]) d0 d1 files_a) = files_a
 \<and> snd (auto_fetch d1 parse_march_2 (api_of [rec_a]) files_a) = files_a"
proof -
  have o: "out_path files_a = Some [rec_a]" and n: "[rec_a] \<noteq> []"
    by (simp_all add: files_a_def)
  have l: "[97] \<in> load_fetched_ids files_a"
    by (simp add: files_a_def load_fetched_ids_def strip_def is_space_def)
  have k: "\<forall>from_date to_date s data.
        get_page (api_of [rec_a]) from_date to_date s = Inr data \<longrightarrow>
        (\<forall>r \<in> set (speech_records_list data).
           \<exists>speech_id. py_get r ''speechID'' = JStr speech_id
             \<and> speech_id \<in> load_fetched_ids files_a)"
    using l by (auto simp: api_of_def rec_a_def py_get_def)
  from incremental_fetch_idempotent [OF o k, of d0 d1 d1 parse_march_2] o n l
  show ?thesis by simp
qed

text \<open>
  The claim as stated fails for a record without identifier: no identifier of it is
  absent from the identifier file, yet the second of two runs over the same data appends
  it again, and \<open>auto_fetch\<close> writes the state anew.
\<close>

theorem incremental_fetch_no_id_counterexample:
  "snd (fetch_incremental (api_of [rec_no_id]) d0 d1 no_files)
     = \<lparr>out_path = Some [rec_no_id], state_path = None, ids_path = None\<rparr>
 \<and> snd (fetch_incremental (api_of [rec_no_id]) d0 d1
          \<lparr>out_path = Some [rec_no_id], state_path = None, ids_path = None\<rparr>)
     = \<lparr>out_path = Some [rec_no_id, rec_no_id], state_path = None, ids_path = None\<rparr>
 \<and> auto_fetch d1 parse_march_2 (api_of [rec_no_id]) files_b
     = (Inr (), \<lparr>out_path = Some [rec_no_id, rec_no_id],
                 state_path = Some (JStr [50, 48, 50, 52, 45, 48, 51, 45, 48, 49]),
                 ids_path = None\<rparr>)"
  by (simp add: fetch_defs rec_no_id_def files_b_def parse_march_2_def numeral_3_eq_3
        days_in_month_def is_leap_def)

section \<open>Theorems: dispatch and the fetch state\<close>

lemma dates_of_append: "dates_of (xs @ ys) = dates_of xs @ dates_of ys"
  by (induction xs) (auto split: option.splits)

lemma ids_of_append: "ids_of (xs @ ys) = ids_of xs @ ids_of ys"
  by (induction xs) (auto split: option.splits)

lemma latest_of_snoc:
  "latest_of (ds @ [d]) = Some (case latest_of ds of None \<Rightarrow> d | Some l \<Rightarrow> if l < d then d else l)"
proof (cases "ds = []")
  case True
  then show ?thesis by (simp add: latest_of_def)
next
  case False
  define m where "m = Max (set ds)"
  from False have "Max (set (ds @ [d])) = max d m" by (simp add: m_def)
  moreover have "max d m = (if m < d then d else m)" by (auto simp: max_def)
  moreover have "latest_of ds = Some m" "latest_of (ds @ [d]) = Some (Max (set (ds @ [d])))"
    using False by (simp_all add: latest_of_def m_def)
  ultimately show ?thesis by simp
qed

lemma later_date_latest_of:
  "later_date (py_get rec ''date'') (latest_of (dates_of recs)) = latest_of (dates_of (recs @ [rec]))"
proof (cases "record_date rec")
  case None
  then show ?thesis
    by (auto simp: record_date_def dates_of_append split: jval.splits if_splits)
next
  case (Some d)
  then have "py_get rec ''date'' = JStr d" "d \<noteq> []"
    by (auto simp: record_date_def split: jval.splits if_splits)
  with Some show ?thesis
    by (auto simp: dates_of_append latest_of_snoc split: option.splits)
qed

lemma initial_inv_record: "initial_inv st \<Longrightarrow> initial_inv (initial_record rec st)"
  unfolding initial_inv_def
  by (auto simp: initial_record_def later_date_latest_of ids_of_append record_id_def set_add_def
        split: jval.splits)

lemma initial_inv_records: "initial_inv st \<Longrightarrow> initial_inv (initial_records recs st)"
  by (induction recs arbitrary: st) (simp_all add: initial_inv_record)

lemma initial_inv_pages:
  "initial_inv st \<Longrightarrow> initial_inv (snd (initial_pages page n is st))"
proof (induction "is" arbitrary: st)
  case Nil
  then show ?case by simp
next
  case (Cons i "is")
  then show ?case
    by (auto simp: Let_def initial_inv_records split: sum.splits)
qed

lemma incremental_inv_record:
  assumes "incremental_inv existing st"
  shows "incremental_inv existing (incremental_record rec st)"
proof (cases "is_duplicate (existing_ids st) (py_get rec ''speechID'')")
  case True
  with assms show ?thesis by (simp add: incremental_record_def)
next
  case False
  show ?thesis
  proof (cases "record_id rec")
    case None
    with False assms show ?thesis
      unfolding incremental_inv_def
      by (auto simp: incremental_record_def Let_def later_date_latest_of ids_of_append
            record_id_def split: jval.splits if_splits)
  next
    case (Some s)
    then have g: "py_get rec ''speechID'' = JStr s" and ne: "s \<noteq> []"
      by (auto simp: record_id_def split: jval.splits if_splits)
    with False have notin: "s \<notin> existing_ids st" by (simp add: is_duplicate_def)
    with assms have "s \<notin> existing" "s \<notin> set (new_ids st)"
      by (auto simp: incremental_inv_def)
    with False assms g ne Some show ?thesis
      unfolding incremental_inv_def
      by (auto simp: incremental_record_def Let_def later_date_latest_of ids_of_append
            set_add_def)
  qed
qed

lemma incremental_inv_records:
  "incremental_inv existing st \<Longrightarrow> incremental_inv existing (incremental_records recs st)"
  by (induction recs arbitrary: st) (simp_all add: incremental_inv_record)

lemma incremental_inv_pages:
  "incremental_inv existing st \<Longrightarrow> incremental_inv existing (snd (incremental_pages page n is st))"
proof (induction "is" arbitrary: st)
  case Nil
  then show ?case by simp
next
  case (Cons i "is")
  then show ?case
    by (auto simp: Let_def incremental_inv_records split: sum.splits)
qed

lemma incremental_inv_start:
  "incremental_inv existing \<lparr>existing_ids = existing, written = [], new_ids = [], latest_date = None\<rparr>"
  by (simp add: incremental_inv_def latest_of_def)

lemma initial_inv_start:
  "initial_inv \<lparr>i_written = [], all_ids = [], i_latest_date = None\<rparr>"
  by (simp add: initial_inv_def latest_of_def)

lemma fetch_initial_result:
  assumes "fetch_initial a from_date to_date fs = (Inr latest, fs')"
  shows "(fs' = fs \<and> latest = None \<and> get_record_count a from_date to_date = Inr 0)
       \<or> (\<exists>st. initial_inv st \<and> latest = i_latest_date st
             \<and> fs' = save_fetched_ids (all_ids st) (fs\<lparr>out_path := Some (i_written st)\<rparr>))"
proof (cases "get_record_count a from_date to_date")
  case (Inl e)
  with assms show ?thesis by (simp add: fetch_initial_def)
next
  case (Inr n)
  show ?thesis
  proof (cases "n = 0")
    case True
    with Inr assms show ?thesis by (auto simp: fetch_initial_def)
  next
    case False
    let ?st0 = "\<lparr>i_written = [], all_ids = [], i_latest_date = None\<rparr>"
    obtain err st where
      pg: "initial_pages (get_page a from_date to_date) n (page_range n) ?st0 = (err, st)"
      by (cases "initial_pages (get_page a from_date to_date) n (page_range n) ?st0")
    from initial_inv_pages [OF initial_inv_start, of "get_page a from_date to_date" n "page_range n"] pg
    have "initial_inv st" by simp
    with pg Inr False assms show ?thesis
      by (cases err) (auto simp: fetch_initial_def)
  qed
qed

lemma fetch_incremental_result:
  assumes "fetch_incremental a from_date to_date fs = (r, fs')"
  shows "(fs' = fs \<and> r \<in> range Inl \<union> {Inr None})
       \<or> (\<exists>st. incremental_inv (load_fetched_ids fs) st
             \<and> ((\<exists>e. r = Inl e \<and> fs' = fs\<lparr>out_path := Some (old_records fs @ written st)\<rparr>)
                \<or> (r = Inr (latest_date st)
                    \<and> fs' = (if new_ids st \<noteq> [] then append_fetched_ids (new_ids st) else (\<lambda>f. f))
                              (fs\<lparr>out_path := Some (old_records fs @ written st)\<rparr>))))"
proof (cases "get_record_count a from_date to_date")
  case (Inl e)
  with assms show ?thesis by (auto simp: fetch_incremental_def)
next
  case (Inr n)
  show ?thesis
  proof (cases "n = 0")
    case True
    with Inr assms show ?thesis by (auto simp: fetch_incremental_def)
  next
    case False
    let ?st0 = "\<lparr>existing_ids = load_fetched_ids fs, written = [], new_ids = [], latest_date = None\<rparr>"
    obtain err st where
      pg: "incremental_pages (get_page a from_date to_date) n (page_range n) ?st0 = (err, st)"
      by (cases "incremental_pages (get_page a from_date to_date) n (page_range n) ?st0")
    from incremental_inv_pages [OF incremental_inv_start, of "load_fetched_ids fs"
        "get_page a from_date to_date" n "page_range n"] pg
    have "incremental_inv (load_fetched_ids fs) st" by simp
    with pg Inr False assms show ?thesis
      by (cases err) (auto simp: fetch_incremental_def old_records_def)
  qed
qed

lemma persist_latest_state:
  assumes "persist_latest (Inr (latest_of ds), fs1) = (Inr (), fs')" and "[] \<notin> set ds"
  shows "fs' = (case latest_of ds of None \<Rightarrow> fs1 | Some d \<Rightarrow> save_state d fs1)"
proof (cases "ds = []")
  case True
  with assms show ?thesis by (simp add: persist_latest_def latest_of_def)
next
  case False
  then have "Max (set ds) \<in> set ds" by simp
  with assms(2) have "Max (set ds) \<noteq> []" by metis
  with assms False show ?thesis by (simp add: persist_latest_def latest_of_def)
qed

lemma dates_of_nonempty: "[] \<notin> set (dates_of recs)"
  by (induction recs) (auto simp: record_date_def split: option.splits jval.splits if_splits)

lemma persist_latest_outcome:
  assumes p: "persist_latest (Inr (latest_of (dates_of new)), fs1) = (Inr (), fs')"
    and o: "old_records fs1 = old_records fs @ new"
    and s: "state_path fs1 = state_path fs"
  shows "\<exists>new. old_records fs' = old_records fs @ new
           \<and> state_path fs' =
               (case latest_of (dates_of new) of None \<Rightarrow> state_path fs | Some d \<Rightarrow> Some (JStr d))"
proof -
  from persist_latest_state [OF p dates_of_nonempty]
  have "fs' = (case latest_of (dates_of new) of None \<Rightarrow> fs1 | Some d \<Rightarrow> save_state d fs1)" .
  then have "old_records fs' = old_records fs @ new
           \<and> state_path fs' =
               (case latest_of (dates_of new) of None \<Rightarrow> state_path fs | Some d \<Rightarrow> Some (JStr d))"
    using o s by (auto simp: save_state_def old_records_def split: option.splits)
  then show ?thesis by blast
qed

lemma persist_latest_Inr:
  "persist_latest (r, fs1) = (Inr u, fs') \<Longrightarrow> \<exists>latest. r = Inr latest"
  by (cases r) (auto simp: persist_latest_def)

lemma persist_initial_outcome:
  assumes p: "persist_latest (fetch_initial a from_date to_date fs) = (Inr (), fs')"
    and e: "old_records fs = []"
  shows "\<exists>new. old_records fs' = old_records fs @ new
           \<and> state_path fs' =
               (case latest_of (dates_of new) of None \<Rightarrow> state_path fs | Some d \<Rightarrow> Some (JStr d))"
proof -
  obtain r fs1 where f: "fetch_initial a from_date to_date fs = (r, fs1)"
    by (cases "fetch_initial a from_date to_date fs")
  with p obtain latest where r: "r = Inr latest" by (auto dest: persist_latest_Inr)
  from fetch_initial_result [OF f [unfolded r]] show ?thesis
  proof
    assume "fs1 = fs \<and> latest = None \<and> get_record_count a from_date to_date = Inr 0"
    then have "persist_latest (Inr (latest_of (dates_of [])), fs1) = (Inr (), fs')"
      "old_records fs1 = old_records fs @ []" "state_path fs1 = state_path fs"
      using p f r by (simp_all add: latest_of_def)
    then show ?thesis by (rule persist_latest_outcome)
  next
    assume "\<exists>st. initial_inv st \<and> latest = i_latest_date st
             \<and> fs1 = save_fetched_ids (all_ids st) (fs\<lparr>out_path := Some (i_written st)\<rparr>)"
    then obtain st where "initial_inv st" "latest = i_latest_date st"
      "fs1 = save_fetched_ids (all_ids st) (fs\<lparr>out_path := Some (i_written st)\<rparr>)" by blast
    then have "persist_latest (Inr (latest_of (dates_of (i_written st))), fs1) = (Inr (), fs')"
      "old_records fs1 = old_records fs @ i_written st" "state_path fs1 = state_path fs"
      using p f r e by (simp_all add: initial_inv_def save_fetched_ids_def old_records_def)
    then show ?thesis by (rule persist_latest_outcome)
  qed
qed

lemma persist_incremental_outcome:
  assumes p: "persist_latest (fetch_incremental a from_date to_date fs) = (Inr (), fs')"
  shows "\<exists>new. old_records fs' = old_records fs @ new
           \<and> state_path fs' =
               (case latest_of (dates_of new) of None \<Rightarrow> state_path fs | Some d \<Rightarrow> Some (JStr d))"
proof -
  obtain r fs1 where f: "fetch_incremental a from_date to_date fs = (r, fs1)"
    by (cases "fetch_incremental a from_date to_date fs")
  with p obtain latest where r: "r = Inr latest" by (auto dest: persist_latest_Inr)
  from fetch_incremental_result [OF f] show ?thesis
  proof
    assume "fs1 = fs \<and> r \<in> range Inl \<union> {Inr None}"
    then have "persist_latest (Inr (latest_of (dates_of [])), fs1) = (Inr (), fs')"
      "old_records fs1 = old_records fs @ []" "state_path fs1 = state_path fs"
      using p f r by (auto simp: latest_of_def)
    then show ?thesis by (rule persist_latest_outcome)
  next
    assume "\<exists>st. incremental_inv (load_fetched_ids fs) st
             \<and> ((\<exists>e. r = Inl e \<and> fs1 = fs\<lparr>out_path := Some (old_records fs @ written st)\<rparr>)
                \<or> (r = Inr (latest_date st)
                    \<and> fs1 = (if new_ids st \<noteq> [] then append_fetched_ids (new_ids st) else (\<lambda>f. f))
                              (fs\<lparr>out_path := Some (old_records fs @ written st)\<rparr>)))"
    then obtain st where "incremental_inv (load_fetched_ids fs) st" "latest = latest_date st"
      "fs1 = (if new_ids st \<noteq> [] then append_fetched_ids (new_ids st) else (\<lambda>f. f))
                              (fs\<lparr>out_path := Some (old_records fs @ written st)\<rparr>)"
      using r by auto
    then have "persist_latest (Inr (latest_of (dates_of (written st))), fs1) = (Inr (), fs')"
      "old_records fs1 = old_records fs @ written st" "state_path fs1 = state_path fs"
      using p f r by (simp_all add: incremental_inv_def append_fetched_ids_def old_records_def)
    then show ?thesis by (rule persist_latest_outcome)
  qed
qed

text \<open>
  Claim C8, as amended. \<open>auto_fetch\<close> fetches in full, from 2023-01-01, when the record
  file is absent or empty, and incrementally otherwise: from three days before the last
  fetched date when the state holds one, from 2023-01-01 when there is no state. When the
  run completes, the records it added to the record file decide the state: if one of them
  carries a date, the latest of their dates is the new state; if none does, the state is
  left as it was.
\<close>

theorem auto_fetch_dispatch:
  "(out_path fs = None \<or> out_path fs = Some [] \<longrightarrow>
      auto_fetch today fromisoformat a fs = persist_latest (fetch_initial a (2023, 1, 1) today fs))
 \<and> (out_path fs = Some (rec # recs) \<and> state_path fs = Some (JStr last_fetched)
      \<and> last_fetched \<noteq> [] \<and> fromisoformat last_fetched = Some last_date
      \<and> minus_days last_date 3 = Inr from_date \<longrightarrow>
      auto_fetch today fromisoformat a fs = persist_latest (fetch_incremental a from_date today fs))
 \<and> (out_path fs = Some (rec # recs) \<and> state_path fs = None \<longrightarrow>
      auto_fetch today fromisoformat a fs = persist_latest (fetch_incremental a (2023, 1, 1) today fs))
 \<and> (auto_fetch today fromisoformat a fs = (Inr (), fs') \<longrightarrow>
      (\<exists>new. old_records fs' = old_records fs @ new
         \<and> state_path fs' =
             (case latest_of (dates_of new) of None \<Rightarrow> state_path fs | Some d \<Rightarrow> Some (JStr d))))"
proof (intro conjI impI)
  assume "out_path fs = None \<or> out_path fs = Some []"
  then show "auto_fetch today fromisoformat a fs = persist_latest (fetch_initial a (2023, 1, 1) today fs)"
    by (auto simp: auto_fetch_def INIT_FROM_DATE_def)
next
  assume "out_path fs = Some (rec # recs) \<and> state_path fs = Some (JStr last_fetched)
      \<and> last_fetched \<noteq> [] \<and> fromisoformat last_fetched = Some last_date
      \<and> minus_days last_date 3 = Inr from_date"
  then show "auto_fetch today fromisoformat a fs = persist_latest (fetch_incremental a from_date today fs)"
    by (simp add: auto_fetch_def load_state_def)
next
  assume "out_path fs = Some (rec # recs) \<and> state_path fs = None"
  then show "auto_fetch today fromisoformat a fs = persist_latest (fetch_incremental a (2023, 1, 1) today fs)"
    by (simp add: auto_fetch_def load_state_def INIT_FROM_DATE_def)
next
  assume r: "auto_fetch today fromisoformat a fs = (Inr (), fs')"
  show "\<exists>new. old_records fs' = old_records fs @ new
         \<and> state_path fs' =
             (case latest_of (dates_of new) of None \<Rightarrow> state_path fs | Some d \<Rightarrow> Some (JStr d))"
  proof (cases "out_path fs = None \<or> out_path fs = Some []")
    case True
    then have "old_records fs = []" by (auto simp: old_records_def)
    moreover from True r have "persist_latest (fetch_initial a INIT_FROM_DATE today fs) = (Inr (), fs')"
      by (auto simp: auto_fetch_def)
    ultimately show ?thesis by (intro persist_initial_outcome)
  next
    case False
    with r obtain from_date where
      "persist_latest (fetch_incremental a from_date today fs) = (Inr (), fs')"
      by (auto simp: auto_fetch_def Let_def split: jval.splits if_splits option.splits sum.splits)
    then show ?thesis by (rule persist_incremental_outcome)
  qed
qed

theorem auto_fetch_dispatch_witness:
  "minus_days (2024, 3, 2) 3 = Inr (2024, 2, 28)
 \<and> auto_fetch d1 parse_march_2 (api_of [rec_a, rec_b]) files_a
     = persist_latest (fetch_incremental (api_of [rec_a, rec_b]) (2024, 2, 28) d1 files_a)
 \<and> auto_fetch d1 parse_march_2 (api_of [rec_a, rec_b]) files_a
     = (Inr (), \<lparr>out_path = Some [rec_a, rec_b],
                 state_path = Some (JStr [50, 48, 50, 52, 45, 48, 50, 45, 50, 57]),
                 ids_path = Some [97, 10, 98, 10]\<rparr>)
 \<and> latest_of (dates_of [rec_b]) = Some [50, 48, 50, 52, 45, 48, 50, 45, 50, 57]"
proof -
  have m: "minus_days (2024, 3, 2) 3 = Inr (2024, 2, 28)"
    by (simp add: numeral_3_eq_3 days_in_month_def is_leap_def)
  have h: "out_path files_a = Some (rec_a # [])
      \<and> state_path files_a = Some (JStr [50, 48, 50, 52, 45, 48, 51, 45, 48, 50])
      \<and> [50, 48, 50, 52, 45, 48, 51, 45, 48, 50] \<noteq> ([] :: ustring)
      \<and> parse_march_2 [50, 48, 50, 52, 45, 48, 51, 45, 48, 50] = Some (2024, 3, 2)
      \<and> minus_days (2024, 3, 2) 3 = Inr (2024, 2, 28)"
    using m by (simp add: files_a_def parse_march_2_def)
  from auto_fetch_dispatch [of files_a d1 parse_march_2 "api_of [rec_a, rec_b]" rec_a "[]"
      "[50, 48, 50, 52, 45, 48, 51, 45, 48, 50]" "(2024, 3, 2)" "(2024, 2, 28)"] h
  have a: "auto_fetch d1 parse_march_2 (api_of [rec_a, rec_b]) files_a
     = persist_latest (fetch_incremental (api_of [rec_a, rec_b]) (2024, 2, 28) d1 files_a)"
    by blast
  have e: "persist_latest (fetch_incremental (api_of [rec_a, rec_b]) (2024, 2, 28) d1 files_a)
     = (Inr (), \<lparr>out_path = Some [rec_a, rec_b],
                 state_path = Some (JStr [50, 48, 50, 52, 45, 48, 50, 45, 50, 57]),
                 ids_path = Some [97, 10, 98, 10]\<rparr>)"
    by (simp add: fetch_defs files_a_def rec_a_def rec_b_def)
  have l: "latest_of (dates_of [rec_b]) = Some [50, 48, 50, 52, 45, 48, 50, 45, 50, 57]"
    by (simp add: latest_of_def record_date_def py_get_def rec_b_def)
  from m a e l show ?thesis by simp
qed

text \<open>
  The claim as stated fails for a record without date: the run below adds a record and
  persists no state.
\<close>

theorem auto_fetch_no_date_counterexample:
  "auto_fetch d1 parse_march_2 (api_of [rec_no_date]) no_files
     = (Inr (), \<lparr>out_path = Some [rec_no_date], state_path = None, ids_path = Some [97, 10]\<rparr>)"
  by (simp add: fetch_defs rec_no_date_def INIT_FROM_DATE_def)

section \<open>Theorems: the identifier file\<close>

lemma load_fetched_ids_file_ids: "load_fetched_ids fs = set (file_ids (ids_text fs))"
  by (simp add: load_fetched_ids_def file_ids_def ids_text_def split: option.splits)

lemma read_lines_line:
  "10 \<notin> set xs \<Longrightarrow> 13 \<notin> set xs \<Longrightarrow>
     read_lines cur (xs @ 10 # rest) = (cur @ xs @ [10]) # read_lines [] rest"
  by (induction xs arbitrary: cur) auto

lemma after_cr_append: "cs \<noteq> [] \<Longrightarrow> after_cr (cs @ u) = after_cr cs @ u"
  by (cases cs) (auto simp: after_cr_def)

lemma read_lines_append:
  "t \<noteq> [] \<Longrightarrow> last t = 10 \<Longrightarrow> read_lines cur (t @ u) = read_lines cur t @ read_lines [] u"
proof (induction cur t rule: read_lines.induct)
  case (1 cur)
  then show ?case by simp
next
  case (2 cur c cs)
  show ?case
  proof (cases "c = 10")
    case True
    show ?thesis
    proof (cases "cs = []")
      case True
      with \<open>c = 10\<close> show ?thesis by simp
    next
      case False
      with 2 True show ?thesis by simp
    qed
  next
    case n10: False
    with "2.prems" have cs: "cs \<noteq> []" by (cases cs) auto
    show ?thesis
    proof (cases "c = 13")
      case True
      show ?thesis
      proof (cases "after_cr cs = []")
        case e: True
        with cs True show ?thesis by (simp add: after_cr_append)
      next
        case ne: False
        have "last (after_cr cs) = 10"
          using "2.prems" cs ne by (cases cs) (auto simp: after_cr_def split: if_splits)
        with "2.IH"(2) [OF n10 True ne] cs True n10 show ?thesis
          by (simp add: after_cr_append)
      qed
    next
      case False
      with "2.IH"(3) [OF n10 False cs] "2.prems" cs n10 show ?thesis by simp
    qed
  qed
qed

lemma strip_clean: "clean_id s \<Longrightarrow> strip (s @ [10]) = s"
proof -
  assume c: "clean_id s"
  then obtain x xs where s: "s = x # xs" and x: "\<not> is_space x"
    by (cases s) (auto simp: clean_id_def)
  from c have l: "\<not> is_space (last s)" and ne: "s \<noteq> []" by (auto simp: clean_id_def)
  have "dropWhile is_space (s @ [10]) = s @ [10]" using s x by simp
  moreover have "rev (s @ [10]) = 10 # rev s" by simp
  moreover have "is_space 10" by (simp add: is_space_def)
  moreover have "dropWhile is_space (rev s) = rev s"
    using l ne by (cases "rev s") (auto simp: last_rev hd_rev [symmetric] dest: arg_cong [where f = hd])
  ultimately show ?thesis by (simp add: strip_def)
qed

lemma read_lines_id_lines:
  "\<forall>s \<in> set ids. clean_id s \<Longrightarrow>
     read_lines [] (id_lines ids) = map (\<lambda>s. s @ [10]) ids"
proof (induction ids)
  case Nil
  then show ?case by (simp add: id_lines_def)
next
  case (Cons s ids)
  then have "10 \<notin> set s" "13 \<notin> set s" by (auto simp: clean_id_def)
  from read_lines_line [OF this, of "[]" "id_lines ids"] Cons show ?case
    by (simp add: id_lines_def)
qed

lemma file_ids_id_lines:
  assumes "\<forall>s \<in> set ids. clean_id s"
  shows "file_ids (id_lines ids) = ids"
proof -
  have "map strip (map (\<lambda>s. s @ [10]) ids) = ids"
    using assms by (induction ids) (simp_all add: strip_clean)
  moreover have "filter (\<lambda>l. l \<noteq> []) ids = ids"
    using assms by (induction ids) (auto simp: clean_id_def)
  ultimately show ?thesis
    by (simp add: file_ids_def read_lines_id_lines [OF assms])
qed

lemma file_ids_append:
  assumes "ends_with_newline t" and "\<forall>s \<in> set ids. clean_id s"
  shows "file_ids (t @ id_lines ids) = file_ids t @ ids"
proof (cases "t = []")
  case True
  then show ?thesis using file_ids_id_lines [OF assms(2)] by (simp add: file_ids_def)
next
  case False
  with assms(1) have "last t = 10" by (simp add: ends_with_newline_def)
  from read_lines_append [OF False this, of "[]" "id_lines ids"]
  have "file_ids (t @ id_lines ids) = file_ids t @ file_ids (id_lines ids)"
    by (simp add: file_ids_def)
  with file_ids_id_lines [OF assms(2)] show ?thesis by simp
qed

lemma ends_with_newline_id_lines: "ends_with_newline (id_lines ids)"
  by (induction ids rule: rev_induct) (simp_all add: ends_with_newline_def id_lines_def)

lemma ends_with_newline_append:
  "ends_with_newline t \<Longrightarrow> ends_with_newline (t @ id_lines ids)"
  by (induction ids rule: rev_induct) (simp_all add: ends_with_newline_def id_lines_def)

lemma incremental_record_written:
  "written (incremental_record rec st) = written st
   \<or> written (incremental_record rec st) = written st @ [rec]"
  by (simp add: incremental_record_def Let_def)

lemma clean_recs_snoc:
  "clean_recs xs \<Longrightarrow> clean_recs (r # rs) \<Longrightarrow> clean_recs (xs @ [r])"
  by (auto simp: clean_recs_def ids_of_append split: option.splits)

lemma clean_recs_tail: "clean_recs (r # rs) \<Longrightarrow> clean_recs rs"
  by (auto simp: clean_recs_def split: option.splits)

lemma incremental_records_clean:
  "clean_recs (written st) \<Longrightarrow> clean_recs recs
     \<Longrightarrow> clean_recs (written (incremental_records recs st))"
proof (induction recs arbitrary: st)
  case Nil
  then show ?case by simp
next
  case (Cons r rs)
  have "clean_recs (written (incremental_record r st))"
    using incremental_record_written [of r st] Cons.prems clean_recs_snoc by metis
  with Cons show ?case by (simp add: clean_recs_tail [OF Cons.prems(2)])
qed

lemma incremental_pages_clean:
  assumes "\<forall>s data. page s = Inr data \<longrightarrow> clean_recs (speech_records_list data)"
  shows "clean_recs (written st) \<Longrightarrow> clean_recs (written (snd (incremental_pages page n is st)))"
proof (induction "is" arbitrary: st)
  case Nil
  then show ?case by simp
next
  case (Cons i "is")
  with assms show ?case
    by (auto simp: Let_def incremental_records_clean split: sum.splits)
qed

lemma initial_records_clean:
  "clean_recs (i_written st) \<Longrightarrow> clean_recs recs
     \<Longrightarrow> clean_recs (i_written (initial_records recs st))"
proof (induction recs arbitrary: st)
  case Nil
  then show ?case by simp
next
  case (Cons r rs)
  have "clean_recs (i_written (initial_record r st))"
    using Cons.prems clean_recs_snoc by (simp add: initial_record_def)
  with Cons show ?case by (simp add: clean_recs_tail [OF Cons.prems(2)])
qed

lemma initial_pages_clean:
  assumes "\<forall>s data. page s = Inr data \<longrightarrow> clean_recs (speech_records_list data)"
  shows "clean_recs (i_written st) \<Longrightarrow> clean_recs (i_written (snd (initial_pages page n is st)))"
proof (induction "is" arbitrary: st)
  case Nil
  then show ?case by simp
next
  case (Cons i "is")
  with assms show ?case
    by (auto simp: Let_def initial_records_clean split: sum.splits)
qed

text \<open>The outcome of a fetch, whatever its end.\<close>

lemma fetch_incremental_outcome:
  assumes "fetch_incremental a from_date to_date fs = (r, fs')"
  shows "\<exists>new added.
           old_records fs' = old_records fs @ new
         \<and> state_path fs' = state_path fs
         \<and> distinct (ids_of new)
         \<and> set (ids_of new) \<inter> load_fetched_ids fs = {}
         \<and> (clean_api a \<longrightarrow> clean_recs new)
         \<and> ids_text fs' = ids_text fs @ id_lines added
         \<and> (added = [] \<or> added = ids_of new)
         \<and> ((\<exists>l. r = Inr l) \<longrightarrow> added = ids_of new)"
proof (cases "get_record_count a from_date to_date")
  case (Inl e)
  with assms have "fs' = fs" "r = Inl e" by (auto simp: fetch_incremental_def)
  then show ?thesis
    by (intro exI [of _ "[]"]) (simp add: id_lines_def clean_recs_def)
next
  case (Inr n)
  show ?thesis
  proof (cases "n = 0")
    case True
    with Inr assms have "fs' = fs" by (auto simp: fetch_incremental_def)
    then show ?thesis
      by (intro exI [of _ "[]"]) (simp add: id_lines_def clean_recs_def)
  next
    case False
    let ?st0 = "\<lparr>existing_ids = load_fetched_ids fs, written = [], new_ids = [], latest_date = None\<rparr>"
    let ?page = "get_page a from_date to_date"
    obtain err st where pg: "incremental_pages ?page n (page_range n) ?st0 = (err, st)"
      by (cases "incremental_pages ?page n (page_range n) ?st0")
    from incremental_inv_pages [OF incremental_inv_start, of "load_fetched_ids fs" ?page n "page_range n"] pg
    have inv: "incremental_inv (load_fetched_ids fs) st" by simp
    have cl: "clean_recs (written st)" if "clean_api a"
    proof -
      from that have "\<forall>s data. ?page s = Inr data \<longrightarrow> clean_recs (speech_records_list data)"
        unfolding clean_api_def by blast
      from incremental_pages_clean [OF this, of ?st0 n "page_range n"] pg show ?thesis
        by (simp add: clean_recs_def)
    qed
    from inv have d: "distinct (ids_of (written st))"
      and j: "set (ids_of (written st)) \<inter> load_fetched_ids fs = {}"
      and w: "ids_of (written st) = new_ids st"
      by (auto simp: incremental_inv_def)
    show ?thesis
    proof (cases err)
      case (Some e)
      with pg Inr False assms have "fs' = fs\<lparr>out_path := Some (old_records fs @ written st)\<rparr>"
        "r = Inl e"
        by (auto simp: fetch_incremental_def old_records_def)
      with d j cl show ?thesis
        by (intro exI [of _ "written st"] exI [of _ "[]"])
          (simp add: old_records_def ids_text_def id_lines_def)
    next
      case None
      with pg Inr False assms have
        "fs' = (if new_ids st \<noteq> [] then append_fetched_ids (new_ids st) else (\<lambda>f. f))
                 (fs\<lparr>out_path := Some (old_records fs @ written st)\<rparr>)"
        by (auto simp: fetch_incremental_def old_records_def)
      with d j cl w show ?thesis
        by (intro exI [of _ "written st"] exI [of _ "new_ids st"])
          (auto simp: old_records_def ids_text_def id_lines_def append_fetched_ids_def)
    qed
  qed
qed

lemma fetch_initial_outcome:
  assumes "fetch_initial a from_date to_date fs = (r, fs')"
  shows "fs' = fs
       \<or> (\<exists>e new. r = Inl e \<and> fs' = fs\<lparr>out_path := Some new\<rparr>)
       \<or> (\<exists>l new ids. r = Inr l \<and> fs' = fs\<lparr>out_path := Some new, ids_path := Some (id_lines ids)\<rparr>
             \<and> distinct ids \<and> set ids = set (ids_of new) \<and> (clean_api a \<longrightarrow> clean_recs new))"
proof (cases "get_record_count a from_date to_date")
  case (Inl e)
  with assms show ?thesis by (auto simp: fetch_initial_def)
next
  case (Inr n)
  show ?thesis
  proof (cases "n = 0")
    case True
    with Inr assms show ?thesis by (auto simp: fetch_initial_def)
  next
    case False
    let ?st0 = "\<lparr>i_written = [], all_ids = [], i_latest_date = None\<rparr>"
    let ?page = "get_page a from_date to_date"
    obtain err st where pg: "initial_pages ?page n (page_range n) ?st0 = (err, st)"
      by (cases "initial_pages ?page n (page_range n) ?st0")
    from initial_inv_pages [OF initial_inv_start, of ?page n "page_range n"] pg
    have inv: "initial_inv st" by simp
    have cl: "clean_recs (i_written st)" if "clean_api a"
    proof -
      from that have "\<forall>s data. ?page s = Inr data \<longrightarrow> clean_recs (speech_records_list data)"
        unfolding clean_api_def by blast
      from initial_pages_clean [OF this, of ?st0 n "page_range n"] pg show ?thesis
        by (simp add: clean_recs_def)
    qed
    show ?thesis
    proof (cases err)
      case (Some e)
      with pg Inr False assms show ?thesis by (auto simp: fetch_initial_def)
    next
      case None
      with pg Inr False assms have
        "r = Inr (i_latest_date st)"
        "fs' = fs\<lparr>out_path := Some (i_written st), ids_path := Some (id_lines (all_ids st))\<rparr>"
        by (auto simp: fetch_initial_def save_fetched_ids_def)
      with inv cl show ?thesis by (auto simp: initial_inv_def)
    qed
  qed
qed

lemma fetch_incremental_ids_ok:
  assumes "ids_file_ok fs" and "clean_api a"
  shows "ids_file_ok (snd (fetch_incremental a from_date to_date fs))"
proof -
  obtain r fs' where f: "fetch_incremental a from_date to_date fs = (r, fs')"
    by (cases "fetch_incremental a from_date to_date fs")
  from fetch_incremental_outcome [OF f] assms(2) obtain new added where
    d: "distinct (ids_of new)" and j: "set (ids_of new) \<inter> load_fetched_ids fs = {}"
    and c: "clean_recs new" and t: "ids_text fs' = ids_text fs @ id_lines added"
    and a: "added = [] \<or> added = ids_of new"
    by blast
  from a c have ca: "\<forall>s \<in> set added. clean_id s" by (auto simp: clean_recs_def)
  from assms(1) have e: "ends_with_newline (ids_text fs)" and d0: "distinct (file_ids (ids_text fs))"
    by (simp_all add: ids_file_ok_def)
  have "file_ids (ids_text fs') = file_ids (ids_text fs) @ added"
    using file_ids_append [OF e ca] t by simp
  moreover have "distinct added" "set added \<inter> set (file_ids (ids_text fs)) = {}"
    using a d j by (auto simp: load_fetched_ids_file_ids)
  ultimately have "distinct (file_ids (ids_text fs'))" using d0 by auto
  moreover have "ends_with_newline (ids_text fs')"
    using t e by (simp add: ends_with_newline_append)
  ultimately show ?thesis using f by (simp add: ids_file_ok_def)
qed

lemma fetch_initial_ids_ok:
  assumes "ids_file_ok fs" and "clean_api a"
  shows "ids_file_ok (snd (fetch_initial a from_date to_date fs))"
proof -
  obtain r fs' where f: "fetch_initial a from_date to_date fs = (r, fs')"
    by (cases "fetch_initial a from_date to_date fs")
  from fetch_initial_outcome [OF f] consider
    "fs' = fs" | new where "fs' = fs\<lparr>out_path := Some new\<rparr>"
    | new ids where "fs' = fs\<lparr>out_path := Some new, ids_path := Some (id_lines ids)\<rparr>"
        "distinct ids" "set ids = set (ids_of new)" "clean_api a \<longrightarrow> clean_recs new"
    by blast
  then have "ids_file_ok fs'"
  proof cases
    case 1
    with assms show ?thesis by simp
  next
    case 2
    with assms show ?thesis by (simp add: ids_file_ok_def ids_text_def)
  next
    case 3
    with assms(2) have "\<forall>s \<in> set ids. clean_id s" by (simp add: clean_recs_def)
    from file_ids_id_lines [OF this] 3 show ?thesis
      by (simp add: ids_file_ok_def ids_text_def ends_with_newline_id_lines)
  qed
  with f show ?thesis by simp
qed

lemma run_fetch_ids_ok:
  "ids_file_ok fs \<Longrightarrow> clean_api (run_api r) \<Longrightarrow> ids_file_ok (snd (run_fetch r fs))"
  by (cases r) (simp_all add: fetch_initial_ids_ok fetch_incremental_ids_ok)

text \<open>
  Clean identifiers are kept once. Start with an identifier file that is in order (none
  at all, for one). After any sequence of full and incremental fetches, however each
  ends, the identifier file holds no identifier twice, provided every identifier the API
  delivers is clean: free of line breaks and of whitespace at its ends.
\<close>

theorem fetched_ids_no_duplicate:
  assumes "ids_file_ok fs" and "\<forall>r \<in> set rs. clean_api (run_api r)"
  shows "distinct (file_ids (ids_text (fetch_runs rs fs))) \<and> ids_file_ok (fetch_runs rs fs)"
proof -
  from assms have "ids_file_ok (fetch_runs rs fs)"
    by (induction rs arbitrary: fs) (simp_all add: run_fetch_ids_ok)
  then show ?thesis by (simp add: ids_file_ok_def)
qed

lemma clean_api_of_a_b: "clean_api (api_of [rec_a, rec_b])" "clean_api (api_of [rec_a])"
  by (simp_all add: clean_api_def clean_recs_def api_of_def record_id_def py_get_def
        rec_a_def rec_b_def clean_id_def is_space_def)

lemma ids_file_ok_no_files: "ids_file_ok no_files" "records_covered no_files"
  by (simp_all add: ids_file_ok_def records_covered_def no_files_def ids_text_def
        ends_with_newline_def file_ids_def old_records_def)

theorem fetched_ids_no_duplicate_witness:
  "ids_file_ok no_files
 \<and> ids_path (fetch_runs [Full (api_of [rec_a]) d0 d1, Incremental (api_of [rec_a, rec_b]) d0 d1]
      no_files) = Some [97, 10, 98, 10]
 \<and> distinct (file_ids (ids_text
      (fetch_runs [Full (api_of [rec_a]) d0 d1, Incremental (api_of [rec_a, rec_b]) d0 d1]
         no_files)))"
proof -
  let ?rs = "[Full (api_of [rec_a]) d0 d1, Incremental (api_of [rec_a, rec_b]) d0 d1]"
  have c: "\<forall>r \<in> set ?rs. clean_api (run_api r)" by (simp add: clean_api_of_a_b)
  have e: "ids_path (fetch_runs ?rs no_files) = Some [97, 10, 98, 10]"
    by (simp add: fetch_defs rec_a_def rec_b_def)
  from fetched_ids_no_duplicate [OF ids_file_ok_no_files(1) c] e ids_file_ok_no_files(1)
  show ?thesis by simp
qed

text \<open>
  Claim C9. The identifier file is to hold no identifier twice after a full fetch and
  incremental fetches. The code at an identifier that starts with a space: the full fetch
  writes it, \<open>load_fetched_ids\<close> gives it back without the space, the incremental fetch
  does not find the identifier among the loaded ones, and writes it a second time.
\<close>

theorem fetched_ids_padded_twice:
  "ids_path (fetch_runs [Full (api_of [rec_padded]) d0 d1, Incremental (api_of [rec_padded]) d0 d1]
      no_files) = Some [32, 97, 10, 32, 97, 10]
 \<and> \<not> distinct (file_ids (ids_text
      (fetch_runs [Full (api_of [rec_padded]) d0 d1, Incremental (api_of [rec_padded]) d0 d1]
         no_files)))"
proof -
  have "fetch_runs [Full (api_of [rec_padded]) d0 d1, Incremental (api_of [rec_padded]) d0 d1] no_files
   = \<lparr>out_path = Some [rec_padded, rec_padded], state_path = None,
       ids_path = Some [32, 97, 10, 32, 97, 10]\<rparr>"
    by (simp add: fetch_defs rec_padded_def)
  then show ?thesis by (simp add: ids_text_def file_ids_def strip_def is_space_def)
qed

section \<open>Theorems: the record file\<close>

lemma fetch_incremental_step:
  assumes cov: "records_covered fs" and cl: "clean_api a"
    and f: "fetch_incremental a from_date to_date fs = (Inr latest, fs')"
  shows "\<exists>new. old_records fs' = old_records fs @ new
           \<and> distinct (ids_of new)
           \<and> set (ids_of new) \<inter> set (ids_of (old_records fs)) = {}
           \<and> records_covered fs'"
proof -
  from fetch_incremental_outcome [OF f] cl obtain new added where
    o: "old_records fs' = old_records fs @ new"
    and d: "distinct (ids_of new)" and j: "set (ids_of new) \<inter> load_fetched_ids fs = {}"
    and c: "clean_recs new" and t: "ids_text fs' = ids_text fs @ id_lines added"
    and a: "added = ids_of new"
    by blast
  from cov have e: "ends_with_newline (ids_text fs)"
    and s: "set (ids_of (old_records fs)) \<subseteq> load_fetched_ids fs"
    by (simp_all add: records_covered_def)
  from a c have ca: "\<forall>s \<in> set added. clean_id s" by (simp add: clean_recs_def)
  have "load_fetched_ids fs' = load_fetched_ids fs \<union> set (ids_of new)"
    using file_ids_append [OF e ca] t a by (simp add: load_fetched_ids_file_ids)
  with s o have "set (ids_of (old_records fs')) \<subseteq> load_fetched_ids fs'"
    by (auto simp: ids_of_append)
  moreover have "ends_with_newline (ids_text fs')"
    using t e by (simp add: ends_with_newline_append)
  ultimately have "records_covered fs'" by (simp add: records_covered_def)
  moreover from j s have "set (ids_of new) \<inter> set (ids_of (old_records fs)) = {}" by blast
  ultimately show ?thesis using o d by blast
qed

lemma fetch_initial_covered:
  assumes cov: "records_covered fs" and cl: "clean_api a"
    and f: "fetch_initial a from_date to_date fs = (Inr latest, fs')"
  shows "records_covered fs'"
proof -
  from fetch_initial_outcome [OF f] cl consider "fs' = fs"
    | new ids where "fs' = fs\<lparr>out_path := Some new, ids_path := Some (id_lines ids)\<rparr>"
        "distinct ids" "set ids = set (ids_of new)" "clean_recs new"
    by blast
  then show ?thesis
  proof cases
    case 1
    with cov show ?thesis by simp
  next
    case 2
    then have "\<forall>s \<in> set ids. clean_id s" by (simp add: clean_recs_def)
    from file_ids_id_lines [OF this] 2 show ?thesis
      by (simp add: records_covered_def ids_text_def old_records_def
            load_fetched_ids_file_ids ends_with_newline_id_lines)
  qed
qed

lemma incremental_runs_steps:
  assumes "records_covered fs" and "\<forall>(a, from_date, to_date) \<in> set rs. clean_api a"
    and "incremental_runs rs fs = Some fs'"
  shows "\<exists>new. old_records fs' = old_records fs @ new
           \<and> distinct (ids_of new)
           \<and> set (ids_of new) \<inter> set (ids_of (old_records fs)) = {}
           \<and> records_covered fs'"
  using assms
proof (induction rs arbitrary: fs)
  case Nil
  then have "old_records fs' = old_records fs @ []" "records_covered fs'" by simp_all
  then show ?case by (intro exI [of _ "[]"]) simp
next
  case (Cons r rs)
  obtain a from_date to_date where r: "r = (a, from_date, to_date)" by (cases r)
  with Cons.prems(3) obtain latest fs1 where
    f: "fetch_incremental a from_date to_date fs = (Inr latest, fs1)"
    and rest: "incremental_runs rs fs1 = Some fs'"
    by (auto split: prod.splits sum.splits)
  from Cons.prems(2) r have cl: "clean_api a"
    and cls: "\<forall>(a, from_date, to_date) \<in> set rs. clean_api a" by auto
  from fetch_incremental_step [OF Cons.prems(1) cl f] obtain new1 where
    o1: "old_records fs1 = old_records fs @ new1" and d1: "distinct (ids_of new1)"
    and j1: "set (ids_of new1) \<inter> set (ids_of (old_records fs)) = {}"
    and c1: "records_covered fs1" by blast
  from Cons.IH [OF c1 cls rest] obtain new2 where
    o2: "old_records fs' = old_records fs1 @ new2" and d2: "distinct (ids_of new2)"
    and j2: "set (ids_of new2) \<inter> set (ids_of (old_records fs1)) = {}"
    and c2: "records_covered fs'" by blast
  have "old_records fs' = old_records fs @ (new1 @ new2)" using o1 o2 by simp
  moreover have "distinct (ids_of (new1 @ new2))"
    using d1 d2 j2 o1 by (auto simp: ids_of_append)
  moreover have "set (ids_of (new1 @ new2)) \<inter> set (ids_of (old_records fs)) = {}"
    using j1 j2 o1 by (auto simp: ids_of_append)
  ultimately show ?case using c2 by blast
qed

text \<open>
  Claim C3, as amended. Let the identifier file be absent, empty or end with a line break,
  and hold every non-empty identifier of the record file (so it is with no files). Let a
  full fetch complete and then any number of incremental fetches, where every non-empty
  identifier the API delivers is clean. Then the records the incremental fetches have
  added carry no non-empty identifier that the record file held after the full fetch,
  and no non-empty identifier twice. And from any files and whatever the end of the run,
  the records an incremental fetch adds carry no identifier that is among the loaded
  identifiers, and no non-empty identifier twice. Records without a non-empty identifier
  and repetitions within the full fetch are outside both statements.
\<close>

theorem fetch_runs_no_duplicate:
  assumes "records_covered start"
    and "fetch_initial a0 from0 to0 start = (Inr latest0, fs1)"
    and "clean_api a0"
    and "\<forall>(a, from_date, to_date) \<in> set rs. clean_api a"
    and "incremental_runs rs fs1 = Some fs'"
  shows "(\<exists>new. old_records fs' = old_records fs1 @ new
           \<and> distinct (ids_of new)
           \<and> set (ids_of new) \<inter> set (ids_of (old_records fs1)) = {})
       \<and> (\<exists>new. old_records (snd (fetch_incremental a from_date to_date fs)) = old_records fs @ new
           \<and> distinct (ids_of new)
           \<and> set (ids_of new) \<inter> load_fetched_ids fs = {})"
proof
  from fetch_initial_covered [OF assms(1,3,2)] have "records_covered fs1" .
  from incremental_runs_steps [OF this assms(4,5)]
  show "\<exists>new. old_records fs' = old_records fs1 @ new
           \<and> distinct (ids_of new)
           \<and> set (ids_of new) \<inter> set (ids_of (old_records fs1)) = {}" by blast
next
  obtain r fs2 where f: "fetch_incremental a from_date to_date fs = (r, fs2)"
    by (cases "fetch_incremental a from_date to_date fs")
  from fetch_incremental_outcome [OF f] f
  show "\<exists>new. old_records (snd (fetch_incremental a from_date to_date fs)) = old_records fs @ new
           \<and> distinct (ids_of new)
           \<and> set (ids_of new) \<inter> load_fetched_ids fs = {}" by auto
qed

theorem fetch_runs_no_duplicate_witness:
  "records_covered no_files
 \<and> fetch_initial (api_of [rec_a]) d0 d1 no_files
     = (Inr (Some [50, 48, 50, 52, 45, 48, 51, 45, 48, 49]),
        \<lparr>out_path = Some [rec_a], state_path = None, ids_path = Some [97, 10]\<rparr>)
 \<and> incremental_runs [(api_of [rec_a, rec_b], d0, d1), (api_of [rec_a, rec_b], d0, d1)]
      \<lparr>out_path = Some [rec_a], state_path = None, ids_path = Some [97, 10]\<rparr>
     = Some \<lparr>out_path = Some [rec_a, rec_b], state_path = None, ids_path = Some [97, 10, 98, 10]\<rparr>
 \<and> (\<exists>new. [rec_a, rec_b] = [rec_a] @ new \<and> distinct (ids_of new)
        \<and> set (ids_of new) \<inter> set (ids_of [rec_a]) = {})"
proof -
  let ?fs1 = "\<lparr>out_path = Some [rec_a], state_path = None, ids_path = Some [97, 10]\<rparr>"
  let ?fs2 = "\<lparr>out_path = Some [rec_a, rec_b], state_path = None, ids_path = Some [97, 10, 98, 10]\<rparr>"
  let ?rs = "[(api_of [rec_a, rec_b], d0, d1), (api_of [rec_a, rec_b], d0, d1)]"
  have f: "fetch_initial (api_of [rec_a]) d0 d1 no_files
     = (Inr (Some [50, 48, 50, 52, 45, 48, 51, 45, 48, 49]), ?fs1)"
    by (simp add: fetch_defs rec_a_def)
  have i: "incremental_runs ?rs ?fs1 = Some ?fs2"
    by (simp add: fetch_defs rec_a_def rec_b_def)
  have c: "\<forall>(a, from_date, to_date) \<in> set ?rs. clean_api a" by (simp add: clean_api_of_a_b)
  from fetch_runs_no_duplicate [OF ids_file_ok_no_files(2) f clean_api_of_a_b(2) c i]
  have "\<exists>new. old_records ?fs2 = old_records ?fs1 @ new \<and> distinct (ids_of new)
        \<and> set (ids_of new) \<inter> set (ids_of (old_records ?fs1)) = {}" by blast
  then have "\<exists>new. [rec_a, rec_b] = [rec_a] @ new \<and> distinct (ids_of new)
        \<and> set (ids_of new) \<inter> set (ids_of [rec_a]) = {}"
    by (simp add: old_records_def)
  with f i ids_file_ok_no_files(2) show ?thesis by blast
qed

text \<open>
  The claim as stated fails for a record without identifier: a full fetch and an
  incremental fetch that both complete write it twice.
\<close>

theorem fetch_runs_no_id_counterexample:
  "incremental_runs [(api_of [rec_no_id], d0, d1)]
     (snd (fetch_initial (api_of [rec_no_id]) d0 d1 no_files))
     = Some \<lparr>out_path = Some [rec_no_id, rec_no_id], state_path = None, ids_path = Some []\<rparr>
 \<and> \<not> distinct [rec_no_id, rec_no_id]"
  by (simp add: fetch_defs rec_no_id_def)

text \<open>
  A full fetch that raises on its second page has written the records of the first and
  no identifier file; the next run is incremental and appends those records again.
\<close>

theorem aborted_full_fetch_repeats_records:
  "auto_fetch d1 parse_march_2 api_failing no_files
     = (Inl HTTPError, \<lparr>out_path = Some [rec_a], state_path = None, ids_path = None\<rparr>)
 \<and> auto_fetch d1 parse_march_2 (api_of [rec_a])
       \<lparr>out_path = Some [rec_a], state_path = None, ids_path = None\<rparr>
     = (Inr (), \<lparr>out_path = Some [rec_a, rec_a],
                 state_path = Some (JStr [50, 48, 50, 52, 45, 48, 51, 45, 48, 49]),
                 ids_path = Some [97, 10]\<rparr>)"
  by (simp add: fetch_defs api_failing_def rec_a_def INIT_FROM_DATE_def upt_rec)

end
